theory Spec2Isabelle
  imports Main
begin

section \<open>Values, errors and the instrumented state\<close>

text \<open>
  JavaScript values. Containers (plain objects, arrays, component instances, virtual
  nodes) live in a store and are denoted by references, so that reference identity is
  equality of \<open>VRef\<close> arguments. \<open>VNaN\<close> is the not-a-number value.
\<close>

datatype val = VUndefined | VNull | VBool bool | VNum int | VNaN | VStr string
  | VFunction nat | VRef nat

text \<open>The operator \<open>===\<close>: identity, except that NaN differs from itself.\<close>

definition strict_eq :: "val \<Rightarrow> val \<Rightarrow> bool" where
  "strict_eq a b = (a = b \<and> a \<noteq> VNaN)"

text \<open>
  Modelled from the spec: \<open>isObject\<close> of \<open>../util/index\<close> is not in the source; it holds
  of containers (objects and lists) and of nothing else.
\<close>

definition isObject :: "val \<Rightarrow> bool" where
  "isObject v = (case v of VRef r \<Rightarrow> True | _ \<Rightarrow> False)"

datatype error = Error string | TypeError string

text \<open>The way a call ends: it returns a value or it throws.\<close>

datatype 'a completion = Normal 'a | Throw error

text \<open>Property keys: array indices (for which \<open>isValidArrayIndex\<close> holds) and names.\<close>

datatype key = Index nat | Name string

datatype getter_fn = UserGetter nat | ReactiveGetter nat

datatype setter_fn = UserSetter nat | ReactiveSetter nat

text \<open>
  A property descriptor: a data property (value, configurable, enumerable) or an accessor
  (get, set, configurable, enumerable). Data properties are taken to be writable.
\<close>

datatype property = DataProp val bool bool
  | AccessorProp "getter_fn option" "setter_fn option" bool bool

datatype kind = PlainObject | Array | VNode | Instance

text \<open>
  A container: own properties in definition order, the elements of an array, the data
  found on its prototype chain, and the hidden marker \<open>__ob__\<close> (\<open>ob\<close>: the Observer
  attached to it, if any).
\<close>

record obj =
  kind :: kind
  props :: "(key \<times> property) list"
  elems :: "val list"
  inherited :: "(key \<times> val) list"
  extensible :: bool
  isVue :: bool
  ob :: "nat option"

text \<open>class Observer: the wrapped container, its own Dep and the root-binding counter.\<close>

record observer =
  ob_value :: nat
  dep :: nat
  vmCount :: nat

text \<open>
  The variables that the accessors installed by one call of \<open>defineReactive\<close> close over.
\<close>

record closure =
  c_obj :: nat
  c_key :: key
  c_dep :: nat
  c_getter :: "getter_fn option"
  c_setter :: "setter_fn option"
  c_val :: val
  c_childOb :: "nat option"
  c_shallow :: bool
  c_customSetter :: "nat option"

text \<open>class Watcher. \<open>cached\<close> is the field \<open>value\<close>; the watcher's id is its address.\<close>

record watcher =
  vm :: nat
  cb :: nat
  deep :: bool
  user :: bool
  lazy :: bool
  sync :: bool
  dirty :: bool
  active :: bool
  deps :: "nat list"
  newDeps :: "nat list"
  depIds :: "nat set"
  newDepIds :: "nat set"
  getter :: "nat option"
  cached :: val

text \<open>The fields of a component instance that the Watcher uses.\<close>

record component =
  vm_watchers :: "nat list"
  vm_watcher :: "nat option"
  isBeingDestroyed :: bool

text \<open>
  The calls that the claims speak about are recorded, in order, in a ghost trace.
\<close>

datatype event = PushTarget "nat option" | PopTarget | GetterCall nat | Traverse val
  | DependCall nat | AddSub nat nat | RemoveSub nat nat | CleanupDeps nat
  | NotifyCall nat | UpdateCall nat | CallbackCall nat val val | HandleError error nat
  | Queued nat | Warn string | CustomSetterCall nat | ObserveCall val
  | UserGetterCall nat | UserSetterCall nat val

record state =
  objs :: "nat \<Rightarrow> obj"
  observers :: "nat \<Rightarrow> observer"
  next_observer :: nat
  closures :: "nat \<Rightarrow> closure"
  next_closure :: nat
  cells :: "nat \<Rightarrow> val"
  shouldObserve :: bool
  subs :: "nat \<Rightarrow> nat list"
  dep_uid :: nat
  targetStack :: "nat option list"
  watchers :: "nat \<Rightarrow> watcher"
  uid :: nat
  vms :: "nat \<Rightarrow> component"
  queue :: "nat list"
  trace :: "event list"

text \<open>
  What one run of a user-supplied evaluator does: the Deps whose \<open>depend()\<close> it triggers,
  in order, and how it ends.
\<close>

record evaluation =
  touches :: "nat list"
  outcome :: "val completion"

text \<open>
  The code that is not part of the engine is a parameter: the evaluators and callbacks
  (addressed by function ids), the traversal helper (the Deps it touches), the path
  resolver and the two build/host flags.
\<close>

record program =
  evaluators :: "nat \<Rightarrow> state \<Rightarrow> evaluation"
  callbacks :: "nat \<Rightarrow> nat \<Rightarrow> val \<Rightarrow> val \<Rightarrow> unit completion"
  traverse :: "state \<Rightarrow> val \<Rightarrow> nat list"
  parsePath :: "string \<Rightarrow> nat option"
  production :: bool
  serverRendering :: bool

definition emit :: "event \<Rightarrow> state \<Rightarrow> state" where
  "emit e st = st\<lparr>trace := trace st @ [e]\<rparr>"

section \<open>Dep and the active-tracker slot\<close>

text \<open>
  Modelled from the spec: \<open>./dep\<close> (class Dep, \<open>pushTarget\<close>, \<open>popTarget\<close>) is not in the
  source. A Dep is its id; \<open>subs st d\<close> is its subscriber list. \<open>addSub\<close> and \<open>removeSub\<close>
  add to and remove from the list, and are no-ops on a duplicate add and on a missing
  remove target.
\<close>

definition addSub :: "nat \<Rightarrow> nat \<Rightarrow> state \<Rightarrow> state" where
  "addSub d w st =
     (emit (AddSub d w) st)\<lparr>subs := (subs st)(d :=
        (if w \<in> set (subs st d) then subs st d else subs st d @ [w]))\<rparr>"

definition removeSub :: "nat \<Rightarrow> nat \<Rightarrow> state \<Rightarrow> state" where
  "removeSub d w st =
     (emit (RemoveSub d w) st)\<lparr>subs := (subs st)(d := remove1 w (subs st d))\<rparr>"

text \<open>
  Modelled from the spec: the global active-tracker slot is a strict push/pop stack;
  \<open>Dep.target\<close> is its top, if any.
\<close>

definition pushTarget :: "nat option \<Rightarrow> state \<Rightarrow> state" where
  "pushTarget t st = (emit (PushTarget t) st)\<lparr>targetStack := t # targetStack st\<rparr>"

definition popTarget :: "state \<Rightarrow> state" where
  "popTarget st = (emit PopTarget st)\<lparr>targetStack := tl (targetStack st)\<rparr>"

definition Dep_target :: "state \<Rightarrow> nat option" where
  "Dep_target st = (case targetStack st of [] \<Rightarrow> None | t # ts \<Rightarrow> t)"

section \<open>Watcher: dependency collection\<close>

text \<open>Watcher.addDep (watcher.js, lines 146-156).\<close>

definition addDep :: "nat \<Rightarrow> nat \<Rightarrow> state \<Rightarrow> state" where
  "addDep w d st =
     (let wt = watchers st w in
      if d \<notin> newDepIds wt then
        (let st1 = st\<lparr>watchers := (watchers st)(w :=
                     wt\<lparr>newDepIds := insert d (newDepIds wt), newDeps := newDeps wt @ [d]\<rparr>)\<rparr>
         in if d \<notin> depIds wt then addSub d w st1 else st1)
      else st)"

text \<open>
  Modelled from the spec: \<open>Dep.depend()\<close> asks the watcher in the active-tracker slot, if
  there is one, to record this Dep; it is a no-op otherwise.
\<close>

definition Dep_depend :: "nat \<Rightarrow> state \<Rightarrow> state" where
  "Dep_depend d st =
     (let st1 = emit (DependCall d) st in
      case Dep_target st1 of None \<Rightarrow> st1 | Some w \<Rightarrow> addDep w d st1)"

text \<open>A run of \<open>depend()\<close> calls on the given Deps, in order.\<close>

definition depend_all :: "nat list \<Rightarrow> state \<Rightarrow> state" where
  "depend_all ds st = foldl (\<lambda>s d. Dep_depend d s) st ds"

text \<open>
  Watcher.cleanupDeps (lines 161-182). The loop \<open>while (i--)\<close> visits \<open>deps\<close> from the last
  entry to the first; then the two pairs of buffers are swapped and the new ones cleared.
\<close>

fun cleanup_loop :: "nat \<Rightarrow> nat list \<Rightarrow> state \<Rightarrow> state" where
  "cleanup_loop w [] st = st"
| "cleanup_loop w (d # ds) st =
     cleanup_loop w ds (if d \<notin> newDepIds (watchers st w) then removeSub d w st else st)"

definition cleanupDeps :: "nat \<Rightarrow> state \<Rightarrow> state" where
  "cleanupDeps w st0 =
     (let st = emit (CleanupDeps w) st0;
          st1 = cleanup_loop w (rev (deps (watchers st w))) st;
          wt = watchers st1 w;
          tmpIds = depIds wt;
          wt1 = wt\<lparr>depIds := newDepIds wt\<rparr>;
          wt2 = wt1\<lparr>newDepIds := tmpIds\<rparr>;
          wt3 = wt2\<lparr>newDepIds := {}\<rparr>;
          tmp = deps wt3;
          wt4 = wt3\<lparr>deps := newDeps wt3\<rparr>;
          wt5 = wt4\<lparr>newDeps := tmp\<rparr>;
          wt6 = wt5\<lparr>newDeps := []\<rparr>
      in st1\<lparr>watchers := (watchers st1)(w := wt6)\<rparr>)"

text \<open>
  Modelled from the spec: \<open>handleError\<close> records the error and does not re-raise.
\<close>

definition handleError :: "error \<Rightarrow> nat \<Rightarrow> state \<Rightarrow> state" where
  "handleError e v st = emit (HandleError e v) st"

text \<open>
  The call \<open>this.getter.call(vm, vm)\<close>: the evaluator runs and every Dep it touches gets
  its \<open>depend()\<close> called. The evaluator \<open>noop\<close> (\<open>getter = None\<close>) touches nothing and returns
  undefined.
\<close>

definition call_getter :: "program \<Rightarrow> nat \<Rightarrow> state \<Rightarrow> val completion \<times> state" where
  "call_getter P w st0 =
     (let st = emit (GetterCall w) st0;
          ev = (case getter (watchers st w) of
                  None \<Rightarrow> \<lparr>touches = [], outcome = Normal VUndefined\<rparr>
                | Some f \<Rightarrow> evaluators P f st)
      in (outcome ev, depend_all (touches ev) st))"

text \<open>
  Modelled from the spec: \<open>traverse(value)\<close> visits the nested properties of the value for
  the sole purpose of forcing dependency registration: the Deps it reaches get their
  \<open>depend()\<close> called.
\<close>

definition call_traverse :: "program \<Rightarrow> val \<Rightarrow> state \<Rightarrow> state" where
  "call_traverse P v st0 =
     (let st = emit (Traverse v) st0
      in depend_all (traverse P st v) st)"

text \<open>
  Watcher.get (lines 109-141): try / catch / finally around the evaluator. The first
  component of the result is the value returned, or the error re-raised to the caller.
\<close>

definition get :: "program \<Rightarrow> nat \<Rightarrow> state \<Rightarrow> val completion \<times> state" where
  "get P w st0 =
     (let st1 = pushTarget (Some w) st0;
          v = vm (watchers st1 w);
          (r, st2) = call_getter P w st1;
          (res, st3) =
             (case r of
                Normal x \<Rightarrow> (Normal x, st2)
              | Throw e \<Rightarrow>
                  if user (watchers st2 w) then (Normal VUndefined, handleError e v st2)
                  else (Throw e, st2));
          val = (case res of Normal x \<Rightarrow> x | Throw e \<Rightarrow> VUndefined);
          st4 = (if deep (watchers st3 w) then call_traverse P val st3 else st3);
          st5 = popTarget st4;
          st6 = cleanupDeps w st5
      in (res, st6))"

section \<open>Watcher: scheduling interface\<close>

text \<open>
  Modelled from the spec: \<open>queueWatcher\<close> of \<open>./scheduler\<close> defers the run and
  deduplicates by watcher id. Flushing the queue is the scheduler's business.
\<close>

definition queueWatcher :: "nat \<Rightarrow> state \<Rightarrow> state" where
  "queueWatcher w st =
     (if w \<in> set (queue st) then st else (emit (Queued w) st)\<lparr>queue := queue st @ [w]\<rparr>)"

text \<open>The call \<open>this.cb.call(this.vm, value, oldValue)\<close>.\<close>

definition call_cb :: "program \<Rightarrow> nat \<Rightarrow> val \<Rightarrow> val \<Rightarrow> state \<Rightarrow> unit completion \<times> state" where
  "call_cb P w v oldValue st =
     (callbacks P (cb (watchers st w)) (vm (watchers st w)) v oldValue,
      emit (CallbackCall w v oldValue) st)"

text \<open>Watcher.run (lines 206-232).\<close>

definition run :: "program \<Rightarrow> nat \<Rightarrow> state \<Rightarrow> unit completion \<times> state" where
  "run P w st =
     (if active (watchers st w) then
        (case get P w st of
           (Throw e, st1) \<Rightarrow> (Throw e, st1)
         | (Normal v, st1) \<Rightarrow>
             if \<not> strict_eq v (cached (watchers st1 w)) \<or> isObject v \<or> deep (watchers st1 w)
             then
               (let oldValue = cached (watchers st1 w);
                    st2 = st1\<lparr>watchers := (watchers st1)(w := (watchers st1 w)\<lparr>cached := v\<rparr>)\<rparr>
                in if user (watchers st2 w) then
                     (case call_cb P w v oldValue st2 of
                        (Throw e, st3) \<Rightarrow> (Normal (), handleError e (vm (watchers st3 w)) st3)
                      | (Normal u, st3) \<Rightarrow> (Normal (), st3))
                   else call_cb P w v oldValue st2)
             else (Normal (), st1))
      else (Normal (), st))"

text \<open>Watcher.update (lines 189-199).\<close>

definition update :: "program \<Rightarrow> nat \<Rightarrow> state \<Rightarrow> unit completion \<times> state" where
  "update P w st0 =
     (let st = emit (UpdateCall w) st0 in
      if lazy (watchers st w) then
        (Normal (), st\<lparr>watchers := (watchers st)(w := (watchers st w)\<lparr>dirty := True\<rparr>)\<rparr>)
      else if sync (watchers st w) then run P w st
      else (Normal (), queueWatcher w st))"

text \<open>Watcher.evaluate (lines 238-241).\<close>

definition evaluate :: "program \<Rightarrow> nat \<Rightarrow> state \<Rightarrow> unit completion \<times> state" where
  "evaluate P w st =
     (case get P w st of
        (Throw e, st1) \<Rightarrow> (Throw e, st1)
      | (Normal v, st1) \<Rightarrow>
          (let st2 = st1\<lparr>watchers := (watchers st1)(w := (watchers st1 w)\<lparr>cached := v\<rparr>)\<rparr>;
               st3 = st2\<lparr>watchers := (watchers st2)(w := (watchers st2 w)\<lparr>dirty := False\<rparr>)\<rparr>
           in (Normal (), st3)))"

text \<open>Watcher.depend (lines 246-251): the held Deps, from the last to the first.\<close>

definition Watcher_depend :: "nat \<Rightarrow> state \<Rightarrow> state" where
  "Watcher_depend w st = depend_all (rev (deps (watchers st w))) st"

text \<open>
  Watcher.teardown (lines 256-270). \<open>remove\<close> of \<open>../util/index\<close> takes the first
  occurrence of the item out of the list.
\<close>

definition removeSub_all :: "nat \<Rightarrow> nat list \<Rightarrow> state \<Rightarrow> state" where
  "removeSub_all w ds st = foldl (\<lambda>s d. removeSub d w s) st ds"

definition teardown :: "nat \<Rightarrow> state \<Rightarrow> state" where
  "teardown w st =
     (if active (watchers st w) then
        (let v = vm (watchers st w);
             st1 = (if \<not> isBeingDestroyed (vms st v)
                    then st\<lparr>vms := (vms st)(v :=
                           (vms st v)\<lparr>vm_watchers := remove1 w (vm_watchers (vms st v))\<rparr>)\<rparr>
                    else st);
             st2 = removeSub_all w (rev (deps (watchers st1 w))) st1
         in st2\<lparr>watchers := (watchers st2)(w := (watchers st2 w)\<lparr>active := False\<rparr>)\<rparr>)
      else st)"

text \<open>
  Modelled from the spec: \<open>Dep.notify()\<close> takes a snapshot of the subscriber list, sorts
  it by subscriber id in debug builds, and invokes \<open>update()\<close> of each subscriber in
  snapshot order. An error raised by a subscriber ends the pass.
\<close>

fun notify_each :: "program \<Rightarrow> nat list \<Rightarrow> state \<Rightarrow> unit completion \<times> state" where
  "notify_each P [] st = (Normal (), st)"
| "notify_each P (w # ws) st =
     (case update P w st of
        (Throw e, st1) \<Rightarrow> (Throw e, st1)
      | (Normal u, st1) \<Rightarrow> notify_each P ws st1)"

definition notify :: "program \<Rightarrow> nat \<Rightarrow> state \<Rightarrow> unit completion \<times> state" where
  "notify P d st0 =
     (let st = emit (NotifyCall d) st0;
          snapshot = (if production P then subs st d else sort (subs st d))
      in notify_each P snapshot st)"

text \<open>
  The Watcher constructor (lines 44-103). \<open>expOrFn\<close> is a function or a path string; the
  options object, when given, carries the four mode flags. The new watcher's id is
  \<open>++uid\<close>. The result is the new watcher, or the error raised by the first evaluation.
\<close>

datatype expOrFn = Fn nat | Path string

record options =
  o_deep :: bool
  o_user :: bool
  o_lazy :: bool
  o_sync :: bool

text \<open>The diagnostic of the constructor for a path that \<open>parsePath\<close> rejects.\<close>

definition path_warning :: "string \<Rightarrow> string" where
  "path_warning p =
     ''Failed watching path: '' @ [CHR 0x22] @ p @ [CHR 0x22] @ '' '' @
     ''Watcher only accepts simple dot-delimited paths. '' @
     ''For full control, use a function instead.''"

definition new_Watcher ::
  "program \<Rightarrow> nat \<Rightarrow> expOrFn \<Rightarrow> nat \<Rightarrow> options option \<Rightarrow> bool \<Rightarrow> state
     \<Rightarrow> nat completion \<times> state" where
  "new_Watcher P v e c opts isRenderWatcher st0 =
     (let w = Suc (uid st0);
          st1 = (if isRenderWatcher
                 then st0\<lparr>vms := (vms st0)(v := (vms st0 v)\<lparr>vm_watcher := Some w\<rparr>)\<rparr>
                 else st0);
          st2 = st1\<lparr>vms := (vms st1)(v :=
                   (vms st1 v)\<lparr>vm_watchers := vm_watchers (vms st1 v) @ [w]\<rparr>)\<rparr>;
          (dp, us, lz, sy) = (case opts of
                                Some o' \<Rightarrow> (o_deep o', o_user o', o_lazy o', o_sync o')
                              | None \<Rightarrow> (False, False, False, False));
          (g, st3) = (case e of
                        Fn f \<Rightarrow> (Some f, st2)
                      | Path p \<Rightarrow>
                          (case parsePath P p of
                             Some f \<Rightarrow> (Some f, st2)
                           | None \<Rightarrow> (None, if \<not> production P
                                             then emit (Warn (path_warning p)) st2
                                             else st2)));
          wt = \<lparr>vm = v, cb = c, deep = dp, user = us, lazy = lz, sync = sy, dirty = lz,
                active = True, deps = [], newDeps = [], depIds = {}, newDepIds = {},
                getter = g, cached = VUndefined\<rparr>;
          st4 = st3\<lparr>watchers := (watchers st3)(w := wt), uid := w\<rparr>
      in if lz then (Normal w, st4)
         else (case get P w st4 of
                 (Throw x, st5) \<Rightarrow> (Throw x, st5)
               | (Normal x, st5) \<Rightarrow>
                   (Normal w, st5\<lparr>watchers := (watchers st5)(w :=
                                    (watchers st5 w)\<lparr>cached := x\<rparr>)\<rparr>)))"

section \<open>Containers and their properties\<close>

text \<open>
  A call of the model ends in a completion and a state; \<open>None\<close> stands for a call that
  does not return because the nesting of calls exceeds the bound given as fuel.
\<close>

type_synonym 'a result = "('a completion \<times> state) option"

definition bnd :: "'a result \<Rightarrow> ('a \<Rightarrow> state \<Rightarrow> 'b result) \<Rightarrow> 'b result" where
  "bnd m f = (case m of
                None \<Rightarrow> None
              | Some (Throw e, st) \<Rightarrow> Some (Throw e, st)
              | Some (Normal x, st) \<Rightarrow> f x st)"

lemma bnd_cong [fundef_cong]:
  "m = m' \<Longrightarrow> (\<And>x st. m' = Some (Normal x, st) \<Longrightarrow> f x st = f' x st) \<Longrightarrow> bnd m f = bnd m' f'"
  by (auto simp: bnd_def split: option.splits completion.splits)


definition configurable :: "property \<Rightarrow> bool" where
  "configurable p = (case p of DataProp v c e \<Rightarrow> c | AccessorProp g s c e \<Rightarrow> c)"

definition enumerable :: "property \<Rightarrow> bool" where
  "enumerable p = (case p of DataProp v c e \<Rightarrow> e | AccessorProp g s c e \<Rightarrow> e)"

definition property_get :: "property \<Rightarrow> getter_fn option" where
  "property_get p = (case p of DataProp v c e \<Rightarrow> None | AccessorProp g s c e \<Rightarrow> g)"

definition property_set :: "property \<Rightarrow> setter_fn option" where
  "property_set p = (case p of DataProp v c e \<Rightarrow> None | AccessorProp g s c e \<Rightarrow> s)"

text \<open>
  \<open>Object.getOwnPropertyDescriptor\<close>: an own property, or an element of an array (a
  writable, enumerable, configurable data property).
\<close>

definition getOwnPropertyDescriptor :: "obj \<Rightarrow> key \<Rightarrow> property option" where
  "getOwnPropertyDescriptor o' k =
     (case map_of (props o') k of
        Some p \<Rightarrow> Some p
      | None \<Rightarrow>
          (case k of
             Index i \<Rightarrow> if kind o' = Array \<and> i < length (elems o')
                        then Some (DataProp (elems o' ! i) True True) else None
           | Name s \<Rightarrow> None))"

text \<open>\<open>hasOwn\<close> of \<open>../util/index\<close> (\<open>hasOwnProperty\<close>) and the operator \<open>in\<close>.\<close>

definition hasOwn :: "obj \<Rightarrow> key \<Rightarrow> bool" where
  "hasOwn o' k = (getOwnPropertyDescriptor o' k \<noteq> None)"

definition key_in :: "key \<Rightarrow> obj \<Rightarrow> bool" where
  "key_in k o' = (hasOwn o' k \<or> k \<in> fst ` set (inherited o'))"

text \<open>The property names of \<open>Object.prototype\<close>.\<close>

definition Object_prototype_keys :: "string list" where
  "Object_prototype_keys = [''constructor'', ''hasOwnProperty'', ''isPrototypeOf'',
     ''propertyIsEnumerable'', ''toLocaleString'', ''toString'', ''valueOf'', ''__proto__'',
     ''__defineGetter__'', ''__defineSetter__'', ''__lookupGetter__'', ''__lookupSetter__'']"

definition in_Object_prototype :: "key \<Rightarrow> bool" where
  "in_Object_prototype k = (case k of Index i \<Rightarrow> False | Name s \<Rightarrow> s \<in> set Object_prototype_keys)"

text \<open>
  \<open>Object.keys\<close>: the own enumerable keys, the integer keys first in ascending order, the
  names in definition order.
\<close>

definition Object_keys :: "obj \<Rightarrow> key list" where
  "Object_keys o' =
     map Index (sort (remdups
        ((if kind o' = Array then [0..<length (elems o')] else []) @
         concat (map (\<lambda>(k, p). case k of Index i \<Rightarrow> if enumerable p then [i] else []
                                        | Name s \<Rightarrow> []) (props o'))))) @
     concat (map (\<lambda>(k, p). case k of Index i \<Rightarrow> []
                                    | Name s \<Rightarrow> if enumerable p then [k] else []) (props o'))"

text \<open>Replacing a property in place, or adding it after the existing ones.\<close>

fun put_prop :: "key \<Rightarrow> property \<Rightarrow> (key \<times> property) list \<Rightarrow> (key \<times> property) list" where
  "put_prop k p [] = [(k, p)]"
| "put_prop k p ((k', p') # ps) = (if k' = k then (k, p) # ps else (k', p') # put_prop k p ps)"

text \<open>
  \<open>Object.defineProperty\<close> with an accessor descriptor. Adding a property to a container
  that is not extensible raises a TypeError.
\<close>

definition defineProperty :: "nat \<Rightarrow> key \<Rightarrow> property \<Rightarrow> state \<Rightarrow> unit result" where
  "defineProperty r k p st =
     (let o' = objs st r in
      if \<not> hasOwn o' k \<and> \<not> extensible o'
      then Some (Throw (TypeError ''object is not extensible''), st)
      else Some (Normal (), st\<lparr>objs := (objs st)(r := o'\<lparr>props := put_prop k p (props o')\<rparr>)\<rparr>))"

text \<open>
  The calls of accessor functions supplied by the user: a getter reads a storage cell and
  a setter writes one; both calls are recorded in the trace.
\<close>

definition call_UserGetter :: "nat \<Rightarrow> state \<Rightarrow> val result" where
  "call_UserGetter c st = Some (Normal (cells st c), emit (UserGetterCall c) st)"

definition call_UserSetter :: "nat \<Rightarrow> val \<Rightarrow> state \<Rightarrow> unit result" where
  "call_UserSetter c v st =
     Some (Normal (), (emit (UserSetterCall c v) st)\<lparr>cells := (cells st)(c := v)\<rparr>)"

definition is_array :: "state \<Rightarrow> val \<Rightarrow> bool" where
  "is_array st v = (case v of VRef r \<Rightarrow> kind (objs st r) = Array | _ \<Rightarrow> False)"

text \<open>The expression \<open>e && e.__ob__\<close>: the Observer attached to a value, if any.\<close>

definition ob_of :: "state \<Rightarrow> val \<Rightarrow> nat option" where
  "ob_of st v = (case v of VRef r \<Rightarrow> ob (objs st r) | _ \<Rightarrow> None)"

section \<open>The accessors installed by defineReactive: reading\<close>

definition elems_of :: "state \<Rightarrow> val \<Rightarrow> val list" where
  "elems_of st v = (case v of VRef r \<Rightarrow> elems (objs st r) | _ \<Rightarrow> [])"

text \<open>The call \<open>childOb.dep.depend()\<close>.\<close>

definition depend_childOb :: "nat \<Rightarrow> state \<Rightarrow> state" where
  "depend_childOb i st = Dep_depend (dep (observers st i)) st"

text \<open>The statement \<open>e && e.__ob__ && e.__ob__.dep.depend()\<close>.\<close>

definition depend_ob_of :: "val \<Rightarrow> state \<Rightarrow> state" where
  "depend_ob_of e st = (case ob_of st e of Some i \<Rightarrow> depend_childOb i st | None \<Rightarrow> st)"

text \<open>
  \<open>dependArray\<close> (lines 585-594 of the second file): the Deps of the Observers of the
  elements of a list, and of the elements of the lists among them.
\<close>

function (sequential)
  dependArray :: "nat \<Rightarrow> val \<Rightarrow> state \<Rightarrow> unit result"
  and dependArray_loop :: "nat \<Rightarrow> val list \<Rightarrow> state \<Rightarrow> unit result"
where
  "dependArray 0 v st = None"
| "dependArray (Suc n) v st = dependArray_loop n (elems_of st v) st"
| "dependArray_loop n [] st = Some (Normal (), st)"
| "dependArray_loop n (e # es) st =
     bnd (if is_array (depend_ob_of e st) e then dependArray n e (depend_ob_of e st)
          else Some (Normal (), depend_ob_of e st))
       (\<lambda>u st2. dependArray_loop n es st2)"
  by pat_completeness auto

termination
  by (relation "inv_image (less_than <*lex*> less_than <*lex*> less_than)
        (\<lambda>x. case x of
           Inl (n, v, st) \<Rightarrow> (n, 0, 0)
         | Inr (n, vs, st) \<Rightarrow> (n, 1, length vs))") auto

text \<open>
  In \<open>reactiveGetter\<close>, the statement \<open>if (Dep.target) { ... }\<close> for the closure \<open>cl\<close> and
  the value \<open>v\<close> just read.
\<close>

definition track_read :: "nat \<Rightarrow> nat \<Rightarrow> val \<Rightarrow> state \<Rightarrow> val result" where
  "track_read n cl v st =
     (if Dep_target st \<noteq> None then
        (let st1 = Dep_depend (c_dep (closures st cl)) st in
         case c_childOb (closures st1 cl) of
           Some i \<Rightarrow>
             (let st2 = depend_childOb i st1 in
              if is_array st2 v
              then bnd (dependArray n v st2) (\<lambda>u st3. Some (Normal v, st3))
              else Some (Normal v, st2))
         | None \<Rightarrow> Some (Normal v, st1))
      else Some (Normal v, st))"

text \<open>
  \<open>closure_value\<close> is the expression \<open>getter ? getter.call(obj) : val\<close>;
  \<open>reactiveGetter\<close> is the installed getter (lines 436-453).
\<close>

function (sequential)
  call_getter_fn :: "nat \<Rightarrow> getter_fn \<Rightarrow> state \<Rightarrow> val result"
  and closure_value :: "nat \<Rightarrow> nat \<Rightarrow> state \<Rightarrow> val result"
  and reactiveGetter :: "nat \<Rightarrow> nat \<Rightarrow> state \<Rightarrow> val result"
where
  "call_getter_fn n (UserGetter c) st = call_UserGetter c st"
| "call_getter_fn n (ReactiveGetter cl) st = reactiveGetter n cl st"
| "closure_value n cl st =
     (case c_getter (closures st cl) of
        Some g \<Rightarrow> call_getter_fn n g st
      | None \<Rightarrow> Some (Normal (c_val (closures st cl)), st))"
| "reactiveGetter 0 cl st = None"
| "reactiveGetter (Suc n) cl st = bnd (closure_value n cl st) (track_read n cl)"
  by pat_completeness auto

termination
  by (relation "inv_image (less_than <*lex*> less_than)
        (\<lambda>x. case x of
           Inl (n, g, st) \<Rightarrow> (n, 1)
         | Inr (Inl (n, cl, st)) \<Rightarrow> (n, 2)
         | Inr (Inr (n, cl, st)) \<Rightarrow> (n, 0))") auto

text \<open>
  The read \<open>obj[key]\<close>: an own data property, an own accessor (whose getter is called),
  or a value found on the prototype chain; undefined otherwise.
\<close>

definition prop_read :: "nat \<Rightarrow> nat \<Rightarrow> key \<Rightarrow> state \<Rightarrow> val result" where
  "prop_read n r k st =
     (case getOwnPropertyDescriptor (objs st r) k of
        Some (DataProp v c e) \<Rightarrow> Some (Normal v, st)
      | Some (AccessorProp g s c e) \<Rightarrow>
          (case g of Some f \<Rightarrow> call_getter_fn n f st | None \<Rightarrow> Some (Normal VUndefined, st))
      | None \<Rightarrow>
          (case map_of (inherited (objs st r)) k of
             Some v \<Rightarrow> Some (Normal v, st)
           | None \<Rightarrow> Some (Normal VUndefined, st)))"

section \<open>Observer, observe and defineReactive\<close>

text \<open>\<open>new Dep()\<close>: a fresh id and an empty subscriber list.\<close>

definition new_Dep :: "state \<Rightarrow> nat \<times> state" where
  "new_Dep st = (dep_uid st, st\<lparr>dep_uid := Suc (dep_uid st), subs := (subs st)(dep_uid st := [])\<rparr>)"

text \<open>
  The guard of \<open>observe\<close> for attaching a new Observer: observation is enabled, no server
  rendering, a list or a plain object, extensible, and not a component instance.
\<close>

definition should_create :: "program \<Rightarrow> state \<Rightarrow> nat \<Rightarrow> bool" where
  "should_create P st r =
     (shouldObserve st \<and> \<not> serverRendering P \<and>
      (kind (objs st r) = Array \<or> kind (objs st r) = PlainObject) \<and>
      extensible (objs st r) \<and> \<not> isVue (objs st r))"

text \<open>The statement \<open>if (asRootData && ob) ob.vmCount++\<close>.\<close>

definition count_root :: "bool \<Rightarrow> nat option \<Rightarrow> state \<Rightarrow> state" where
  "count_root asRootData ob' st =
     (case ob' of
        Some i \<Rightarrow>
          if asRootData
          then st\<lparr>observers := (observers st)(i :=
                 (observers st i)\<lparr>vmCount := Suc (vmCount (observers st i))\<rparr>)\<rparr>
          else st
      | None \<Rightarrow> st)"

text \<open>
  The first statements of the Observer constructor: the fields \<open>value\<close>, \<open>dep\<close> and
  \<open>vmCount\<close>, and \<open>def(value, '__ob__', this)\<close>, which sets the marker. Augmenting an
  array (\<open>protoAugment\<close>, \<open>copyAugment\<close>) makes its mutating methods the wrapped ones,
  which the model reads off the marker.
\<close>

definition attach_Observer :: "nat \<Rightarrow> state \<Rightarrow> nat \<times> state" where
  "attach_Observer r st =
     (let (d, st1) = new_Dep st;
          i = next_observer st1;
          st2 = st1\<lparr>observers := (observers st1)(i := \<lparr>ob_value = r, dep = d, vmCount = 0\<rparr>),
                    next_observer := Suc i\<rparr>;
          st3 = st2\<lparr>objs := (objs st2)(r := (objs st2 r)\<lparr>ob := Some i\<rparr>)\<rparr>
      in (i, st3))"

text \<open>
  In \<open>defineReactive\<close>: the initial value. \<open>valopt\<close> is \<open>None\<close> when the call has exactly
  two arguments; then \<open>val = obj[key]\<close> is read unless the property has a getter and no
  setter.
\<close>

definition initial_val :: "nat \<Rightarrow> nat \<Rightarrow> key \<Rightarrow> property option \<Rightarrow> val option \<Rightarrow> state \<Rightarrow> val result" where
  "initial_val n r k property valopt st =
     (let getter' = (case property of Some p \<Rightarrow> property_get p | None \<Rightarrow> None);
          setter' = (case property of Some p \<Rightarrow> property_set p | None \<Rightarrow> None)
      in if (getter' = None \<or> setter' \<noteq> None) \<and> valopt = None
         then prop_read n r k st
         else Some (Normal (case valopt of Some v \<Rightarrow> v | None \<Rightarrow> VUndefined), st))"

text \<open>
  In \<open>defineReactive\<close>: the call of \<open>Object.defineProperty\<close> that installs the two
  accessors, with the variables they close over.
\<close>

definition install_accessors ::
  "nat \<Rightarrow> key \<Rightarrow> nat \<Rightarrow> property option \<Rightarrow> val \<Rightarrow> nat option \<Rightarrow> nat option \<Rightarrow> bool \<Rightarrow> state
     \<Rightarrow> unit result" where
  "install_accessors r k d property v childOb customSetter shallow st =
     (let cl = next_closure st;
          st1 = st\<lparr>closures := (closures st)(cl :=
                  \<lparr>c_obj = r, c_key = k, c_dep = d,
                   c_getter = (case property of Some p \<Rightarrow> property_get p | None \<Rightarrow> None),
                   c_setter = (case property of Some p \<Rightarrow> property_set p | None \<Rightarrow> None),
                   c_val = v, c_childOb = childOb,
                   c_shallow = shallow, c_customSetter = customSetter\<rparr>),
                next_closure := Suc cl\<rparr>
      in defineProperty r k
           (AccessorProp (Some (ReactiveGetter cl)) (Some (ReactiveSetter cl)) True True) st1)"

text \<open>
  \<open>observe\<close> (lines 383-407), the Observer constructor with \<open>walk\<close> and \<open>observeArray\<close>
  (lines 42-76) and \<open>defineReactive\<close> (lines 412-482).
\<close>

function (sequential)
  observe :: "program \<Rightarrow> nat \<Rightarrow> val \<Rightarrow> bool \<Rightarrow> state \<Rightarrow> nat option result"
  and new_Observer :: "program \<Rightarrow> nat \<Rightarrow> nat \<Rightarrow> state \<Rightarrow> nat result"
  and walk :: "program \<Rightarrow> nat \<Rightarrow> nat \<Rightarrow> key list \<Rightarrow> state \<Rightarrow> unit result"
  and observeArray :: "program \<Rightarrow> nat \<Rightarrow> val list \<Rightarrow> state \<Rightarrow> unit result"
  and defineReactive ::
    "program \<Rightarrow> nat \<Rightarrow> nat \<Rightarrow> key \<Rightarrow> val option \<Rightarrow> nat option \<Rightarrow> bool \<Rightarrow> state \<Rightarrow> unit result"
where
  "observe P n (VRef r) asRootData st0 =
     (let st = emit (ObserveCall (VRef r)) st0 in
      if kind (objs st r) = VNode then Some (Normal None, st)
      else
        bnd (case ob (objs st r) of
               Some i \<Rightarrow> Some (Normal (Some i), st)
             | None \<Rightarrow>
                 if should_create P st r
                 then bnd (new_Observer P n r st) (\<lambda>i st1. Some (Normal (Some i), st1))
                 else Some (Normal None, st))
          (\<lambda>ob' st1. Some (Normal ob', count_root asRootData ob' st1)))"
| "observe P n v asRootData st0 = Some (Normal None, emit (ObserveCall v) st0)"
| "new_Observer P 0 r st = None"
| "new_Observer P (Suc n) r st =
     bnd (if kind (objs (snd (attach_Observer r st)) r) = Array
          then observeArray P n (elems (objs (snd (attach_Observer r st)) r))
                 (snd (attach_Observer r st))
          else walk P n r (Object_keys (objs (snd (attach_Observer r st)) r))
                 (snd (attach_Observer r st)))
       (\<lambda>u st1. Some (Normal (fst (attach_Observer r st)), st1))"
| "walk P n r [] st = Some (Normal (), st)"
| "walk P n r (k # ks) st =
     bnd (defineReactive P n r k None None False st) (\<lambda>u st1. walk P n r ks st1)"
| "observeArray P n [] st = Some (Normal (), st)"
| "observeArray P n (v # vs) st =
     bnd (observe P n v False st) (\<lambda>u st1. observeArray P n vs st1)"
| "defineReactive P n r k valopt customSetter shallow st0 =
     (if (case getOwnPropertyDescriptor (objs (snd (new_Dep st0)) r) k of
            Some p \<Rightarrow> \<not> configurable p | None \<Rightarrow> False)
      then Some (Normal (), snd (new_Dep st0))
      else
        bnd (initial_val n r k (getOwnPropertyDescriptor (objs (snd (new_Dep st0)) r) k) valopt
               (snd (new_Dep st0)))
          (\<lambda>v st1.
             bnd (if \<not> shallow then observe P n v False st1 else Some (Normal None, st1))
               (\<lambda>childOb st2.
                  install_accessors r k (fst (new_Dep st0))
                    (getOwnPropertyDescriptor (objs (snd (new_Dep st0)) r) k)
                    v childOb customSetter shallow st2)))"
  by pat_completeness auto

termination
  by (relation "inv_image (less_than <*lex*> less_than <*lex*> less_than)
        (\<lambda>x. case x of
           Inl (Inl (P, n, v, a, st)) \<Rightarrow> (n, 2, 0)
         | Inl (Inr (P, n, r, st)) \<Rightarrow> (n, 1, 0)
         | Inr (Inl (P, n, r, ks, st)) \<Rightarrow> (n, 4, length ks)
         | Inr (Inr (Inl (P, n, vs, st))) \<Rightarrow> (n, 4, length vs)
         | Inr (Inr (Inr (P, n, r, k, vo, cs, sh, st))) \<Rightarrow> (n, 3, 0))") auto

section \<open>The accessors installed by defineReactive: writing\<close>

text \<open>
  \<open>reactiveSetter\<close> (lines 455-480). \<open>same_value\<close> is the test
  \<open>newVal === value || (newVal !== newVal && value !== value)\<close>. The custom setter, a
  development aid, is recorded in the trace when it is called.
\<close>

definition same_value :: "val \<Rightarrow> val \<Rightarrow> bool" where
  "same_value newVal v =
     (strict_eq newVal v \<or> (\<not> strict_eq newVal newVal \<and> \<not> strict_eq v v))"

definition call_customSetter :: "program \<Rightarrow> nat \<Rightarrow> state \<Rightarrow> state" where
  "call_customSetter P cl st =
     (case c_customSetter (closures st cl) of
        Some f \<Rightarrow> if \<not> production P then emit (CustomSetterCall f) st else st
      | None \<Rightarrow> st)"

text \<open>The last two statements of the setter, once the new child Observer is known.\<close>

definition set_childOb_notify :: "program \<Rightarrow> nat \<Rightarrow> nat option \<Rightarrow> state \<Rightarrow> unit result" where
  "set_childOb_notify P cl childOb st =
     Some (notify P (c_dep (closures st cl))
             (st\<lparr>closures := (closures st)(cl := (closures st cl)\<lparr>c_childOb := childOb\<rparr>)\<rparr>))"

function (sequential)
  call_setter_fn :: "program \<Rightarrow> nat \<Rightarrow> setter_fn \<Rightarrow> val \<Rightarrow> state \<Rightarrow> unit result"
  and reactiveSetter :: "program \<Rightarrow> nat \<Rightarrow> nat \<Rightarrow> val \<Rightarrow> state \<Rightarrow> unit result"
where
  "call_setter_fn P n (UserSetter c) v st = call_UserSetter c v st"
| "call_setter_fn P n (ReactiveSetter cl) v st = reactiveSetter P n cl v st"
| "reactiveSetter P 0 cl newVal st = None"
| "reactiveSetter P (Suc n) cl newVal st =
     bnd (closure_value n cl st) (\<lambda>v st1.
       if same_value newVal v then Some (Normal (), st1)
       else if c_getter (closures (call_customSetter P cl st1) cl) \<noteq> None \<and>
               c_setter (closures (call_customSetter P cl st1) cl) = None
       then Some (Normal (), call_customSetter P cl st1)
       else
         bnd (case c_setter (closures (call_customSetter P cl st1) cl) of
                Some s \<Rightarrow> call_setter_fn P n s newVal (call_customSetter P cl st1)
              | None \<Rightarrow>
                  Some (Normal (), (call_customSetter P cl st1)\<lparr>closures :=
                    (closures (call_customSetter P cl st1))(cl :=
                       (closures (call_customSetter P cl st1) cl)\<lparr>c_val := newVal\<rparr>)\<rparr>))
           (\<lambda>u st3.
              bnd (if \<not> c_shallow (closures st3 cl) then observe P n newVal False st3
                   else Some (Normal None, st3))
                (set_childOb_notify P cl)))"
  by pat_completeness auto

termination
  by (relation "inv_image (less_than <*lex*> less_than)
        (\<lambda>x. case x of
           Inl (P, n, s, v, st) \<Rightarrow> (n, 1)
         | Inr (P, n, cl, v, st) \<Rightarrow> (n, 0))") auto

section \<open>set and del\<close>


text \<open>
  The statement \<open>delete target[key]\<close> in strict mode, for an own property that is not an
  array element: a TypeError when the property is not configurable.
\<close>

definition delete_prop :: "nat \<Rightarrow> key \<Rightarrow> state \<Rightarrow> unit result" where
  "delete_prop r k st =
     (let o' = objs st r in
      case map_of (props o') k of
        Some p \<Rightarrow>
          if configurable p
          then Some (Normal (), st\<lparr>objs := (objs st)(r :=
                       o'\<lparr>props := filter (\<lambda>(k', p'). k' \<noteq> k) (props o')\<rparr>)\<rparr>)
          else Some (Throw (TypeError ''property is not configurable''), st)
      | None \<Rightarrow> Some (Normal (), st))"

text \<open>
  Modelled from the spec: \<open>./array\<close> (the wrapped mutating list operations) is not in
  the source. \<open>splice\<close> performs the mutation; on an observed array it is the wrapped
  operation, which then observes the inserted elements and calls \<open>notify()\<close> on the Dep
  of the array's Observer. Arrays are taken to be extensible here.
\<close>

definition splice :: "program \<Rightarrow> nat \<Rightarrow> nat \<Rightarrow> nat \<Rightarrow> nat \<Rightarrow> val list \<Rightarrow> state \<Rightarrow> unit result" where
  "splice P n r start deleteCount items st =
     (let o' = objs st r;
          s = min start (length (elems o'));
          st1 = st\<lparr>objs := (objs st)(r :=
                  o'\<lparr>elems := take s (elems o') @ items @ drop (s + deleteCount) (elems o')\<rparr>)\<rparr>
      in case ob (objs st1 r) of
           None \<Rightarrow> Some (Normal (), st1)
         | Some i \<Rightarrow>
             bnd (observeArray P n items st1)
               (\<lambda>u st2. Some (notify P (dep (observers st2 i)) st2)))"


definition del_warning :: string where
  "del_warning =
     ''Avoid deleting properties on a Vue instance or its root $data '' @
     ''- just set it to null.''"


text \<open>\<open>del\<close> (lines 553-579), for a target that is a container of the store.\<close>

definition del :: "program \<Rightarrow> nat \<Rightarrow> nat \<Rightarrow> key \<Rightarrow> state \<Rightarrow> unit result" where
  "del P n target k st =
     (case (kind (objs st target), k) of
        (Array, Index i) \<Rightarrow> splice P n target i 1 [] st
      | _ \<Rightarrow>
          (let ob' = ob (objs st target) in
           if isVue (objs st target) \<or>
              (case ob' of Some i \<Rightarrow> vmCount (observers st i) \<noteq> 0 | None \<Rightarrow> False)
           then Some (Normal (),
                  if \<not> production P
                  then emit (Warn del_warning) st
                  else st)
           else if \<not> hasOwn (objs st target) k then Some (Normal (), st)
           else
             bnd (delete_prop target k st)
               (\<lambda>u st1.
                  case ob' of
                    None \<Rightarrow> Some (Normal (), st1)
                  | Some i \<Rightarrow> Some (notify P (dep (observers st1 i)) st1))))"

section \<open>Reading the trace; invariants\<close>

text \<open>The calls of one kind that a trace records, in order.\<close>

definition depend_calls :: "event list \<Rightarrow> nat list" where
  "depend_calls tr = concat (map (\<lambda>e. case e of DependCall d \<Rightarrow> [d] | _ \<Rightarrow> []) tr)"

definition update_calls :: "event list \<Rightarrow> nat list" where
  "update_calls tr = concat (map (\<lambda>e. case e of UpdateCall u \<Rightarrow> [u] | _ \<Rightarrow> []) tr)"

definition getter_calls :: "event list \<Rightarrow> nat list" where
  "getter_calls tr = concat (map (\<lambda>e. case e of GetterCall u \<Rightarrow> [u] | _ \<Rightarrow> []) tr)"

definition callback_calls :: "event list \<Rightarrow> (nat \<times> val \<times> val) list" where
  "callback_calls tr =
     concat (map (\<lambda>e. case e of CallbackCall u a b \<Rightarrow> [(u, a, b)] | _ \<Rightarrow> []) tr)"

definition addSub_calls :: "event list \<Rightarrow> (nat \<times> nat) list" where
  "addSub_calls tr = concat (map (\<lambda>e. case e of AddSub d u \<Rightarrow> [(d, u)] | _ \<Rightarrow> []) tr)"

definition removeSub_calls :: "event list \<Rightarrow> (nat \<times> nat) list" where
  "removeSub_calls tr = concat (map (\<lambda>e. case e of RemoveSub d u \<Rightarrow> [(d, u)] | _ \<Rightarrow> []) tr)"

definition notify_calls :: "event list \<Rightarrow> nat list" where
  "notify_calls tr = concat (map (\<lambda>e. case e of NotifyCall d \<Rightarrow> [d] | _ \<Rightarrow> []) tr)"

text \<open>The first occurrences, in order, of the entries of a list that are not in \<open>N\<close>.\<close>

fun collect :: "nat set \<Rightarrow> nat list \<Rightarrow> nat list" where
  "collect N [] = []"
| "collect N (d # ds) = (if d \<in> N then collect N ds else d # collect (insert d N) ds)"

text \<open>The invariant of Dep: a subscriber appears at most once in a subscriber list.\<close>

definition Dep_inv :: "state \<Rightarrow> bool" where
  "Dep_inv st \<longleftrightarrow> (\<forall>d. distinct (subs st d))"


text \<open>
  While watcher \<open>w\<close> evaluates, started in \<open>st\<close>: what the state \<open>s\<close> looks like once
  \<open>depend()\<close> has been called on the Deps \<open>X\<close>.
\<close>

definition collecting :: "nat \<Rightarrow> state \<Rightarrow> state \<Rightarrow> nat list \<Rightarrow> bool" where
  "collecting w st s X \<longleftrightarrow>
     targetStack s = Some w # targetStack st \<and>
     (\<forall>u. watchers s u =
        (if u = w then (watchers st w)\<lparr>newDepIds := newDepIds (watchers st w) \<union> set X,
            newDeps := newDeps (watchers st w) @ collect (newDepIds (watchers st w)) X\<rparr>
         else watchers st u)) \<and>
     (\<forall>d. subs s d =
        (if d \<in> set X \<and> d \<notin> newDepIds (watchers st w) \<and> d \<notin> depIds (watchers st w)
            \<and> w \<notin> set (subs st d)
         then subs st d @ [w] else subs st d)) \<and>
     depend_calls (trace s) = depend_calls (trace st) @ X \<and>
     addSub_calls (trace s) = addSub_calls (trace st) @
        map (\<lambda>d. (d, w)) (filter (\<lambda>d. d \<notin> depIds (watchers st w))
           (collect (newDepIds (watchers st w)) X)) \<and>
     removeSub_calls (trace s) = removeSub_calls (trace st)"

section \<open>A small program and states to run the model on\<close>

definition empty_obj :: obj where
  "empty_obj = \<lparr>kind = PlainObject, props = [], elems = [], inherited = [], extensible = True,
     isVue = False, ob = None\<rparr>"

definition idle_watcher :: watcher where
  "idle_watcher = \<lparr>vm = 0, cb = 0, deep = False, user = False, lazy = False, sync = False,
     dirty = False, active = False, deps = [], newDeps = [], depIds = {}, newDepIds = {},
     getter = None, cached = VUndefined\<rparr>"

definition init_state :: state where
  "init_state = \<lparr>objs = (\<lambda>r. empty_obj),
     observers = (\<lambda>i. \<lparr>ob_value = 0, dep = 0, vmCount = 0\<rparr>), next_observer = 0,
     closures = (\<lambda>i. \<lparr>c_obj = 0, c_key = Index 0, c_dep = 0, c_getter = None, c_setter = None,
        c_val = VUndefined, c_childOb = None, c_shallow = False, c_customSetter = None\<rparr>),
     next_closure = 0, cells = (\<lambda>c. VUndefined), shouldObserve = True,
     subs = (\<lambda>d. []), dep_uid = 0, targetStack = [], watchers = (\<lambda>w. idle_watcher), uid = 0,
     vms = (\<lambda>v. \<lparr>vm_watchers = [], vm_watcher = None, isBeingDestroyed = False\<rparr>),
     queue = [], trace = []\<rparr>"

text \<open>
  Evaluator 0 touches the Deps 1, 1, 2 and returns 7; every other evaluator touches Dep 2
  and throws. Callback 0 returns; every other callback throws.
\<close>

definition demo_program :: program where
  "demo_program = \<lparr>
     evaluators = (\<lambda>f st. if f = 0 then \<lparr>touches = [1, 1, 2], outcome = Normal (VNum 7)\<rparr>
                           else \<lparr>touches = [2], outcome = Throw (Error ''boom'')\<rparr>),
     callbacks = (\<lambda>c v a b. if c = 0 then Normal () else Throw (Error ''callback'')),
     traverse = (\<lambda>st v. [3]),
     parsePath = (\<lambda>p. None),
     production = False, serverRendering = False\<rparr>"

text \<open>
  Watcher 1 holds Dep 0 from its previous evaluation and is subscribed to it. Watcher 2
  is a user watcher whose callback throws; watcher 3 has a throwing evaluator; watcher 4
  is a deep user watcher with a throwing evaluator. Component 0 owns the four of them.
\<close>

definition demo_state :: state where
  "demo_state = init_state\<lparr>
     watchers := (\<lambda>w. idle_watcher)
       (1 := idle_watcher\<lparr>active := True, deps := [0], depIds := {0}, getter := Some 0\<rparr>,
        2 := idle_watcher\<lparr>active := True, user := True, getter := Some 0, cb := 1\<rparr>,
        3 := idle_watcher\<lparr>active := True, getter := Some 1\<rparr>,
        4 := idle_watcher\<lparr>active := True, user := True, deep := True, getter := Some 1\<rparr>),
     subs := (\<lambda>d. [])(0 := [1]), uid := 4,
     vms := (\<lambda>v. \<lparr>vm_watchers = [], vm_watcher = None, isBeingDestroyed = False\<rparr>)
       (0 := \<lparr>vm_watchers = [1, 2, 3, 4], vm_watcher = None, isBeingDestroyed = False\<rparr>)\<rparr>"

definition lazy_options :: options where
  "lazy_options = \<lparr>o_deep = False, o_user = False, o_lazy = True, o_sync = False\<rparr>"

section \<open>Frames of the operations on containers\<close>

definition observe_calls :: "event list \<Rightarrow> val list" where
  "observe_calls tr = concat (map (\<lambda>e. case e of ObserveCall v \<Rightarrow> [v] | _ \<Rightarrow> []) tr)"

definition user_getter_calls :: "event list \<Rightarrow> nat list" where
  "user_getter_calls tr = concat (map (\<lambda>e. case e of UserGetterCall c \<Rightarrow> [c] | _ \<Rightarrow> []) tr)"

text \<open>
  What a read leaves alone: the containers, Observers, closures and storage cells, the
  counters, the tracker slot, and the calls of \<open>notify\<close>, \<open>update\<close> and \<open>observe\<close>.
\<close>

definition reads_only :: "state \<Rightarrow> state \<Rightarrow> bool" where
  "reads_only st st' \<longleftrightarrow>
     objs st' = objs st \<and> observers st' = observers st \<and>
     next_observer st' = next_observer st \<and> closures st' = closures st \<and>
     next_closure st' = next_closure st \<and> cells st' = cells st \<and>
     shouldObserve st' = shouldObserve st \<and> dep_uid st' = dep_uid st \<and>
     targetStack st' = targetStack st \<and>
     notify_calls (trace st') = notify_calls (trace st) \<and>
     update_calls (trace st') = update_calls (trace st) \<and>
     observe_calls (trace st') = observe_calls (trace st)"

text \<open>
  What observing leaves alone: the kind, elements and flags of every container and a
  marker once set; the Observers and closures that exist (but for root counters); the
  storage cells and the tracker slot; and it makes no call of \<open>notify\<close> or \<open>update\<close>.
\<close>

definition objs_grow :: "state \<Rightarrow> state \<Rightarrow> bool" where
  "objs_grow st st' \<longleftrightarrow>
     (\<forall>x. kind (objs st' x) = kind (objs st x) \<and> elems (objs st' x) = elems (objs st x) \<and>
          extensible (objs st' x) = extensible (objs st x) \<and>
          isVue (objs st' x) = isVue (objs st x) \<and>
          (ob (objs st x) \<noteq> None \<longrightarrow> ob (objs st' x) = ob (objs st x)))"

definition observers_grow :: "state \<Rightarrow> state \<Rightarrow> bool" where
  "observers_grow st st' \<longleftrightarrow>
     next_observer st \<le> next_observer st' \<and>
     (\<forall>j < next_observer st. dep (observers st' j) = dep (observers st j) \<and>
          ob_value (observers st' j) = ob_value (observers st j))"

definition closures_grow :: "state \<Rightarrow> state \<Rightarrow> bool" where
  "closures_grow st st' \<longleftrightarrow>
     next_closure st \<le> next_closure st' \<and>
     (\<forall>c < next_closure st. closures st' c = closures st c)"

definition quiet :: "state \<Rightarrow> state \<Rightarrow> bool" where
  "quiet st st' \<longleftrightarrow>
     cells st' = cells st \<and> shouldObserve st' = shouldObserve st \<and>
     targetStack st' = targetStack st \<and>
     notify_calls (trace st') = notify_calls (trace st) \<and>
     update_calls (trace st') = update_calls (trace st)"

definition observes_only :: "state \<Rightarrow> state \<Rightarrow> bool" where
  "observes_only st st' \<longleftrightarrow>
     objs_grow st st' \<and> observers_grow st st' \<and> closures_grow st st' \<and> quiet st st'"


text \<open>
  A store with a plain object 0, \<open>{a: 1, b: [2, <object 0>]}\<close>, whose list is container 1;
  the states reached from it by observing object 0, as ordinary data and as root data.
\<close>

definition heap_state :: state where
  "heap_state = init_state\<lparr>objs := (\<lambda>r. empty_obj)
     (0 := empty_obj\<lparr>props := [(Name ''a'', DataProp (VNum 1) True True),
                                 (Name ''b'', DataProp (VRef 1) True True)]\<rparr>,
      1 := empty_obj\<lparr>kind := Array, elems := [VNum 2, VRef 0]\<rparr>)\<rparr>"

definition observed_state :: state where
  "observed_state =
     (case observe demo_program 3 (VRef 0) False heap_state of
        Some (c, st) \<Rightarrow> st
      | None \<Rightarrow> heap_state)"


text \<open>
  A store whose object 0 has the property \<open>g\<close> with a getter reading cell 0 and no
  setter, and the state reached from it by \<open>defineReactive(obj, 'g')\<close>.
\<close>

definition getter_state :: state where
  "getter_state = init_state\<lparr>objs := (\<lambda>r. empty_obj)
     (0 := empty_obj\<lparr>props := [(Name ''g'', AccessorProp (Some (UserGetter 0)) None True True)]\<rparr>),
     cells := (\<lambda>c. VUndefined)(0 := VNum 9)\<rparr>"

definition installed_state :: state where
  "installed_state =
     (case defineReactive demo_program 1 0 (Name ''g'') None None False getter_state of
        Some (c, st) \<Rightarrow> st
      | None \<Rightarrow> getter_state)"

section \<open>Facts about traces and the primitive steps\<close>

lemma calls_append:
  "depend_calls (a @ b) = depend_calls a @ depend_calls b"
  "update_calls (a @ b) = update_calls a @ update_calls b"
  "getter_calls (a @ b) = getter_calls a @ getter_calls b"
  "callback_calls (a @ b) = callback_calls a @ callback_calls b"
  "addSub_calls (a @ b) = addSub_calls a @ addSub_calls b"
  "removeSub_calls (a @ b) = removeSub_calls a @ removeSub_calls b"
  "notify_calls (a @ b) = notify_calls a @ notify_calls b"
  by (simp_all add: depend_calls_def update_calls_def getter_calls_def callback_calls_def
      addSub_calls_def removeSub_calls_def notify_calls_def)

lemma calls_Nil:
  "depend_calls [] = []" "update_calls [] = []" "getter_calls [] = []"
  "callback_calls [] = []" "addSub_calls [] = []" "removeSub_calls [] = []"
  "notify_calls [] = []"
  by (simp_all add: depend_calls_def update_calls_def getter_calls_def callback_calls_def
      addSub_calls_def removeSub_calls_def notify_calls_def)

lemma calls_Cons:
  "depend_calls (e # tr) = (case e of DependCall u \<Rightarrow> [u] | _ \<Rightarrow> []) @ depend_calls tr"
  "update_calls (e # tr) = (case e of UpdateCall u \<Rightarrow> [u] | _ \<Rightarrow> []) @ update_calls tr"
  "getter_calls (e # tr) = (case e of GetterCall u \<Rightarrow> [u] | _ \<Rightarrow> []) @ getter_calls tr"
  "callback_calls (e # tr) =
     (case e of CallbackCall u a b \<Rightarrow> [(u, a, b)] | _ \<Rightarrow> []) @ callback_calls tr"
  "addSub_calls (e # tr) = (case e of AddSub d u \<Rightarrow> [(d, u)] | _ \<Rightarrow> []) @ addSub_calls tr"
  "removeSub_calls (e # tr) =
     (case e of RemoveSub d u \<Rightarrow> [(d, u)] | _ \<Rightarrow> []) @ removeSub_calls tr"
  "notify_calls (e # tr) = (case e of NotifyCall d \<Rightarrow> [d] | _ \<Rightarrow> []) @ notify_calls tr"
  by (simp_all add: depend_calls_def update_calls_def getter_calls_def callback_calls_def
      addSub_calls_def removeSub_calls_def notify_calls_def)

lemmas calls_simps = calls_append calls_Nil calls_Cons



lemma collect_append: "collect N (xs @ ys) = collect N xs @ collect (N \<union> set xs) ys"
  by (induction xs arbitrary: N) (auto simp: insert_absorb)

lemma emit_fields:
  "watchers (emit e st) = watchers st" "subs (emit e st) = subs st"
  "targetStack (emit e st) = targetStack st" "trace (emit e st) = trace st @ [e]"
  "Dep_target (emit e st) = Dep_target st" "vms (emit e st) = vms st"
  "queue (emit e st) = queue st" "uid (emit e st) = uid st"
  by (simp_all add: emit_def Dep_target_def)

lemma pushTarget_fields:
  "watchers (pushTarget t st) = watchers st" "subs (pushTarget t st) = subs st"
  "targetStack (pushTarget t st) = t # targetStack st"
  "trace (pushTarget t st) = trace st @ [PushTarget t]"
  "Dep_target (pushTarget t st) = t"
  by (simp_all add: pushTarget_def emit_def Dep_target_def)

lemma popTarget_fields:
  "watchers (popTarget st) = watchers st" "subs (popTarget st) = subs st"
  "targetStack (popTarget st) = tl (targetStack st)"
  "trace (popTarget st) = trace st @ [PopTarget]"
  by (simp_all add: popTarget_def emit_def)

lemma handleError_fields:
  "watchers (handleError e v st) = watchers st" "subs (handleError e v st) = subs st"
  "targetStack (handleError e v st) = targetStack st"
  "trace (handleError e v st) = trace st @ [HandleError e v]"
  "Dep_target (handleError e v st) = Dep_target st"
  by (simp_all add: handleError_def emit_fields)

lemma removeSub_fields:
  "watchers (removeSub d w st) = watchers st"
  "targetStack (removeSub d w st) = targetStack st"
  "subs (removeSub d w st) = (subs st)(d := remove1 w (subs st d))"
  "trace (removeSub d w st) = trace st @ [RemoveSub d w]"
  "vms (removeSub d w st) = vms st"
  by (simp_all add: removeSub_def emit_def)

subsection \<open>One call of depend(), and a run of them\<close>

lemma Dep_depend_targetStack: "targetStack (Dep_depend d st) = targetStack st"
  by (simp add: Dep_depend_def Dep_target_def emit_def addDep_def addSub_def Let_def
      split: list.split option.split)

lemma Dep_target_depend: "Dep_target (Dep_depend d st) = Dep_target st"
  by (simp add: Dep_target_def Dep_depend_targetStack)

lemma Dep_depend_watchers:
  "Dep_target st = Some w \<Longrightarrow>
   watchers (Dep_depend d st) =
     (if d \<in> newDepIds (watchers st w) then watchers st
      else (watchers st)(w := (watchers st w)\<lparr>newDepIds := insert d (newDepIds (watchers st w)),
              newDeps := newDeps (watchers st w) @ [d]\<rparr>))"
  by (simp add: Dep_depend_def Dep_target_def emit_def addDep_def addSub_def Let_def
      split: list.split option.split)

lemma Dep_depend_subs:
  "Dep_target st = Some w \<Longrightarrow>
   subs (Dep_depend d st) =
     (if d \<notin> newDepIds (watchers st w) \<and> d \<notin> depIds (watchers st w) \<and> w \<notin> set (subs st d)
      then (subs st)(d := subs st d @ [w]) else subs st)"
  by (auto simp add: Dep_depend_def Dep_target_def emit_def addDep_def addSub_def Let_def
      split: list.split option.split)

lemma Dep_depend_trace: "\<exists>tr. trace (Dep_depend d st) = trace st @ tr"
  by (simp add: Dep_depend_def Dep_target_def emit_def addDep_def addSub_def Let_def
      split: list.split option.split)

lemma Dep_depend_calls:
  "depend_calls (trace (Dep_depend d st)) = depend_calls (trace st) @ [d]"
  "update_calls (trace (Dep_depend d st)) = update_calls (trace st)"
  "getter_calls (trace (Dep_depend d st)) = getter_calls (trace st)"
  "callback_calls (trace (Dep_depend d st)) = callback_calls (trace st)"
  "removeSub_calls (trace (Dep_depend d st)) = removeSub_calls (trace st)"
  "notify_calls (trace (Dep_depend d st)) = notify_calls (trace st)"
  by (simp_all add: Dep_depend_def Dep_target_def emit_def addDep_def addSub_def Let_def
      calls_simps split: list.split option.split)

lemma Dep_depend_addSub_calls:
  "Dep_target st = Some w \<Longrightarrow>
   addSub_calls (trace (Dep_depend d st)) = addSub_calls (trace st) @
     (if d \<notin> newDepIds (watchers st w) \<and> d \<notin> depIds (watchers st w) then [(d, w)] else [])"
  by (simp add: Dep_depend_def Dep_target_def emit_def addDep_def addSub_def Let_def
      calls_simps split: list.split option.split)

lemma depend_all_simps:
  "depend_all [] st = st" "depend_all (d # ds) st = depend_all ds (Dep_depend d st)"
  by (simp_all add: depend_all_def)

lemma depend_all_targetStack: "targetStack (depend_all ds st) = targetStack st"
  by (induction ds arbitrary: st) (simp_all add: depend_all_simps Dep_depend_targetStack)

lemma depend_all_trace: "\<exists>tr. trace (depend_all ds st) = trace st @ tr"
proof (induction ds arbitrary: st)
  case Nil
  then show ?case by (simp add: depend_all_simps)
next
  case (Cons d ds)
  obtain t1 where "trace (Dep_depend d st) = trace st @ t1"
    using Dep_depend_trace by blast
  moreover obtain t2 where "trace (depend_all ds (Dep_depend d st)) = trace (Dep_depend d st) @ t2"
    using Cons.IH by blast
  ultimately show ?case
    by (simp add: depend_all_simps)
qed

lemma depend_all_calls:
  "depend_calls (trace (depend_all ds st)) = depend_calls (trace st) @ ds"
  "update_calls (trace (depend_all ds st)) = update_calls (trace st)"
  "getter_calls (trace (depend_all ds st)) = getter_calls (trace st)"
  "callback_calls (trace (depend_all ds st)) = callback_calls (trace st)"
  "removeSub_calls (trace (depend_all ds st)) = removeSub_calls (trace st)"
  "notify_calls (trace (depend_all ds st)) = notify_calls (trace st)"
proof -
  show "depend_calls (trace (depend_all ds st)) = depend_calls (trace st) @ ds"
    by (induction ds arbitrary: st) (simp_all add: depend_all_simps Dep_depend_calls)
  show "update_calls (trace (depend_all ds st)) = update_calls (trace st)"
    by (induction ds arbitrary: st) (simp_all add: depend_all_simps Dep_depend_calls)
  show "getter_calls (trace (depend_all ds st)) = getter_calls (trace st)"
    by (induction ds arbitrary: st) (simp_all add: depend_all_simps Dep_depend_calls)
  show "callback_calls (trace (depend_all ds st)) = callback_calls (trace st)"
    by (induction ds arbitrary: st) (simp_all add: depend_all_simps Dep_depend_calls)
  show "removeSub_calls (trace (depend_all ds st)) = removeSub_calls (trace st)"
    by (induction ds arbitrary: st) (simp_all add: depend_all_simps Dep_depend_calls)
  show "notify_calls (trace (depend_all ds st)) = notify_calls (trace st)"
    by (induction ds arbitrary: st) (simp_all add: depend_all_simps Dep_depend_calls)
qed

lemma depend_all_watchers:
  "Dep_target st = Some w \<Longrightarrow>
   watchers (depend_all ds st) u =
     (if u = w then (watchers st w)\<lparr>newDepIds := newDepIds (watchers st w) \<union> set ds,
        newDeps := newDeps (watchers st w) @ collect (newDepIds (watchers st w)) ds\<rparr>
      else watchers st u)"
proof (induction ds arbitrary: st)
  case Nil
  then show ?case by (simp add: depend_all_simps)
next
  case (Cons d ds)
  have t: "Dep_target (Dep_depend d st) = Some w"
    using Cons.prems by (simp add: Dep_target_depend)
  show ?case
    using Cons.prems
    by (simp add: depend_all_simps Cons.IH [OF t] Dep_depend_watchers insert_absorb)
qed

lemma depend_all_subs:
  "Dep_target st = Some w \<Longrightarrow>
   subs (depend_all ds st) d =
     (if d \<in> set ds \<and> d \<notin> newDepIds (watchers st w) \<and> d \<notin> depIds (watchers st w)
         \<and> w \<notin> set (subs st d)
      then subs st d @ [w] else subs st d)"
proof (induction ds arbitrary: st)
  case Nil
  then show ?case by (simp add: depend_all_simps)
next
  case (Cons e ds)
  have t: "Dep_target (Dep_depend e st) = Some w"
    using Cons.prems by (simp add: Dep_target_depend)
  show ?case
    using Cons.prems
    by (auto simp add: depend_all_simps Cons.IH [OF t] Dep_depend_watchers Dep_depend_subs)
qed

lemma depend_all_addSub_calls:
  "Dep_target st = Some w \<Longrightarrow>
   addSub_calls (trace (depend_all ds st)) = addSub_calls (trace st) @
     map (\<lambda>d. (d, w)) (filter (\<lambda>d. d \<notin> depIds (watchers st w))
        (collect (newDepIds (watchers st w)) ds))"
proof (induction ds arbitrary: st)
  case Nil
  then show ?case by (simp add: depend_all_simps)
next
  case (Cons e ds)
  have t: "Dep_target (Dep_depend e st) = Some w"
    using Cons.prems by (simp add: Dep_target_depend)
  show ?case
    using Cons.prems
    by (simp add: depend_all_simps Cons.IH [OF t] Dep_depend_watchers Dep_depend_addSub_calls)
qed

subsection \<open>The reconciliation loop\<close>

lemma cleanup_loop_watchers: "watchers (cleanup_loop w ds st) = watchers st"
  by (induction ds arbitrary: st) (simp_all add: removeSub_fields)

lemma cleanup_loop_targetStack: "targetStack (cleanup_loop w ds st) = targetStack st"
  by (induction ds arbitrary: st) (simp_all add: removeSub_fields)

lemma cleanup_loop_trace:
  "\<exists>tr. trace (cleanup_loop w ds st) = trace st @ tr \<and> (\<forall>e \<in> set tr. \<exists>d. e = RemoveSub d w)"
proof (induction ds arbitrary: st)
  case Nil
  then show ?case by simp
next
  case (Cons d ds)
  let ?s = "if d \<notin> newDepIds (watchers st w) then removeSub d w st else st"
  obtain tr where tr: "trace (cleanup_loop w ds ?s) = trace ?s @ tr"
      "\<forall>e \<in> set tr. \<exists>d. e = RemoveSub d w"
    using Cons.IH [of ?s] by blast
  show ?case
  proof (cases "d \<in> newDepIds (watchers st w)")
    case True
    with tr show ?thesis by auto
  next
    case False
    with tr have "trace (cleanup_loop w (d # ds) st) = trace st @ (RemoveSub d w # tr)"
      by (simp add: removeSub_fields)
    moreover have "\<forall>e \<in> set (RemoveSub d w # tr). \<exists>d. e = RemoveSub d w"
      using tr(2) by simp
    ultimately show ?thesis by blast
  qed
qed

lemma cleanup_loop_calls:
  "depend_calls (trace (cleanup_loop w ds st)) = depend_calls (trace st)"
  "update_calls (trace (cleanup_loop w ds st)) = update_calls (trace st)"
  "getter_calls (trace (cleanup_loop w ds st)) = getter_calls (trace st)"
  "callback_calls (trace (cleanup_loop w ds st)) = callback_calls (trace st)"
  "addSub_calls (trace (cleanup_loop w ds st)) = addSub_calls (trace st)"
  "notify_calls (trace (cleanup_loop w ds st)) = notify_calls (trace st)"
  by (induction ds arbitrary: st) (simp_all add: removeSub_fields calls_simps)




lemma cleanupDeps_watchers:
  "watchers (cleanupDeps w st) u =
     (if u = w then (watchers st w)\<lparr>depIds := newDepIds (watchers st w), newDepIds := {},
          deps := newDeps (watchers st w), newDeps := []\<rparr>
      else watchers st u)"
  by (simp add: cleanupDeps_def Let_def cleanup_loop_watchers emit_fields)

lemma cleanupDeps_targetStack: "targetStack (cleanupDeps w st) = targetStack st"
  by (simp add: cleanupDeps_def Let_def cleanup_loop_targetStack emit_fields)



lemma cleanupDeps_calls:
  "depend_calls (trace (cleanupDeps w st)) = depend_calls (trace st)"
  "update_calls (trace (cleanupDeps w st)) = update_calls (trace st)"
  "getter_calls (trace (cleanupDeps w st)) = getter_calls (trace st)"
  "callback_calls (trace (cleanupDeps w st)) = callback_calls (trace st)"
  "addSub_calls (trace (cleanupDeps w st)) = addSub_calls (trace st)"
  "notify_calls (trace (cleanupDeps w st)) = notify_calls (trace st)"
  by (simp_all add: cleanupDeps_def Let_def cleanup_loop_calls emit_fields calls_simps)


subsection \<open>The evaluation up to the release of the tracker slot\<close>

lemma collecting_push: "collecting w st (pushTarget (Some w) st) []"
  by (simp add: collecting_def pushTarget_fields calls_simps)

lemma collecting_emit:
  assumes "collecting w st s X"
    and "\<forall>d u. e \<noteq> DependCall d \<and> e \<noteq> AddSub d u \<and> e \<noteq> RemoveSub d u"
  shows "collecting w st (emit e s) X"
  using assms unfolding collecting_def
  by (cases e) (simp_all add: emit_fields calls_simps)

lemma collecting_handleError:
  "collecting w st s X \<Longrightarrow> collecting w st (handleError e v s) X"
  by (simp add: handleError_def collecting_emit)

lemma collecting_depend_all:
  assumes "collecting w st s X"
  shows "collecting w st (depend_all Y s) (X @ Y)"
proof -
  have t: "Dep_target s = Some w"
    using assms by (simp add: collecting_def Dep_target_def)
  have 1: "targetStack (depend_all Y s) = Some w # targetStack st"
    using assms by (simp add: collecting_def depend_all_targetStack)
  have 2: "\<forall>u. watchers (depend_all Y s) u =
        (if u = w then (watchers st w)\<lparr>newDepIds := newDepIds (watchers st w) \<union> set (X @ Y),
            newDeps := newDeps (watchers st w) @ collect (newDepIds (watchers st w)) (X @ Y)\<rparr>
         else watchers st u)"
    using assms by (simp add: collecting_def depend_all_watchers [OF t] collect_append Un_assoc)
  have 3: "\<forall>d. subs (depend_all Y s) d =
        (if d \<in> set (X @ Y) \<and> d \<notin> newDepIds (watchers st w) \<and> d \<notin> depIds (watchers st w)
            \<and> w \<notin> set (subs st d)
         then subs st d @ [w] else subs st d)"
    using assms by (auto simp add: collecting_def depend_all_subs [OF t])
  have 4: "depend_calls (trace (depend_all Y s)) = depend_calls (trace st) @ X @ Y"
    using assms by (simp add: collecting_def depend_all_calls)
  have 5: "addSub_calls (trace (depend_all Y s)) = addSub_calls (trace st) @
        map (\<lambda>d. (d, w)) (filter (\<lambda>d. d \<notin> depIds (watchers st w))
           (collect (newDepIds (watchers st w)) (X @ Y)))"
    using assms by (simp add: collecting_def depend_all_addSub_calls [OF t] collect_append)
  have 6: "removeSub_calls (trace (depend_all Y s)) = removeSub_calls (trace st)"
    using assms by (simp add: collecting_def depend_all_calls)
  show ?thesis
    unfolding collecting_def using 1 2 3 4 5 6 by simp
qed

lemma collecting_call_traverse:
  "collecting w st s X \<Longrightarrow> \<exists>Y. collecting w st (call_traverse P v s) (X @ Y)"
  unfolding call_traverse_def Let_def
  by (blast intro: collecting_depend_all collecting_emit)

lemma collecting_call_getter:
  "collecting w st s X \<Longrightarrow> \<exists>Y. collecting w st (snd (call_getter P w s)) (X @ Y)"
  unfolding call_getter_def Let_def
  by (auto intro!: exI collecting_depend_all collecting_emit)

lemma get_mid:
  "\<exists>s X. collecting w st s X \<and> snd (get P w st) = cleanupDeps w (popTarget s)"
proof -
  let ?s1 = "pushTarget (Some w) st"
  obtain r s2 where cg: "call_getter P w ?s1 = (r, s2)" by (cases "call_getter P w ?s1")
  obtain X where c2: "collecting w st s2 X"
    using collecting_call_getter [OF collecting_push, of w st P] cg by auto
  define rs where "rs = (case r of Normal x \<Rightarrow> (Normal x, s2)
              | Throw e \<Rightarrow>
                  if user (watchers s2 w)
                  then (Normal VUndefined, handleError e (vm (watchers ?s1 w)) s2)
                  else (Throw e, s2))"
  obtain res s3 where rs: "rs = (res, s3)" by (cases rs)
  have c3: "collecting w st s3 X"
    using rs c2 unfolding rs_def
    by (auto split: completion.splits if_splits intro: collecting_handleError)
  define s4 where "s4 = (if deep (watchers s3 w)
      then call_traverse P (case res of Normal x \<Rightarrow> x | Throw e \<Rightarrow> VUndefined) s3 else s3)"
  obtain Z where c4: "collecting w st s4 Z"
    using c3 collecting_call_traverse [OF c3] unfolding s4_def
    by (cases "deep (watchers s3 w)") auto
  have "snd (get P w st) = cleanupDeps w (popTarget s4)"
    using cg rs unfolding get_def Let_def s4_def rs_def by simp
  with c4 show ?thesis by blast
qed

section \<open>Watcher.get\<close>

lemma get_watchers:
  "\<exists>X. \<forall>u. watchers (snd (get P w st)) u =
     (if u = w then (watchers st w)\<lparr>depIds := newDepIds (watchers st w) \<union> set X, newDepIds := {},
          deps := newDeps (watchers st w) @ collect (newDepIds (watchers st w)) X, newDeps := []\<rparr>
      else watchers st u)"
proof -
  obtain s X where c: "collecting w st s X" and g: "snd (get P w st) = cleanupDeps w (popTarget s)"
    using get_mid by blast
  have "\<forall>u. watchers (snd (get P w st)) u =
     (if u = w then (watchers st w)\<lparr>depIds := newDepIds (watchers st w) \<union> set X, newDepIds := {},
          deps := newDeps (watchers st w) @ collect (newDepIds (watchers st w)) X, newDeps := []\<rparr>
      else watchers st u)"
    using c by (simp add: g cleanupDeps_watchers popTarget_fields collecting_def)
  then show ?thesis by blast
qed

lemma get_fields:
  "cached (watchers (snd (get P w st)) u) = cached (watchers st u)"
  "active (watchers (snd (get P w st)) u) = active (watchers st u)"
  "user (watchers (snd (get P w st)) u) = user (watchers st u)"
  "deep (watchers (snd (get P w st)) u) = deep (watchers st u)"
  "lazy (watchers (snd (get P w st)) u) = lazy (watchers st u)"
  "sync (watchers (snd (get P w st)) u) = sync (watchers st u)"
  "dirty (watchers (snd (get P w st)) u) = dirty (watchers st u)"
  "vm (watchers (snd (get P w st)) u) = vm (watchers st u)"
  "cb (watchers (snd (get P w st)) u) = cb (watchers st u)"
  "getter (watchers (snd (get P w st)) u) = getter (watchers st u)"
proof -
  obtain X where "\<forall>u. watchers (snd (get P w st)) u =
     (if u = w then (watchers st w)\<lparr>depIds := newDepIds (watchers st w) \<union> set X, newDepIds := {},
          deps := newDeps (watchers st w) @ collect (newDepIds (watchers st w)) X, newDeps := []\<rparr>
      else watchers st u)"
    using get_watchers by blast
  then have X: "watchers (snd (get P w st)) u =
     (if u = w then (watchers st w)\<lparr>depIds := newDepIds (watchers st w) \<union> set X, newDepIds := {},
          deps := newDeps (watchers st w) @ collect (newDepIds (watchers st w)) X, newDeps := []\<rparr>
      else watchers st u)"
    by simp
  show "cached (watchers (snd (get P w st)) u) = cached (watchers st u)"
    "active (watchers (snd (get P w st)) u) = active (watchers st u)"
    "user (watchers (snd (get P w st)) u) = user (watchers st u)"
    "deep (watchers (snd (get P w st)) u) = deep (watchers st u)"
    "lazy (watchers (snd (get P w st)) u) = lazy (watchers st u)"
    "sync (watchers (snd (get P w st)) u) = sync (watchers st u)"
    "dirty (watchers (snd (get P w st)) u) = dirty (watchers st u)"
    "vm (watchers (snd (get P w st)) u) = vm (watchers st u)"
    "cb (watchers (snd (get P w st)) u) = cb (watchers st u)"
    "getter (watchers (snd (get P w st)) u) = getter (watchers st u)"
    by (simp_all add: X)
qed

lemma get_calls:
  "update_calls (trace (snd (get P w st))) = update_calls (trace st)"
  "getter_calls (trace (snd (get P w st))) = getter_calls (trace st) @ [w]"
  "callback_calls (trace (snd (get P w st))) = callback_calls (trace st)"
  "notify_calls (trace (snd (get P w st))) = notify_calls (trace st)"
  by (simp_all add: get_def Let_def call_getter_def call_traverse_def cleanupDeps_calls
      depend_all_calls popTarget_fields pushTarget_fields handleError_fields emit_fields
      calls_simps split: prod.splits completion.splits)

lemma get_vms: "vms (snd (get P w st)) = vms st"
proof -
  have d: "\<And>d s. vms (Dep_depend d s) = vms s"
    by (simp add: Dep_depend_def Dep_target_def emit_def addDep_def addSub_def Let_def
        split: list.split option.split)
  have da: "\<And>ds s. vms (depend_all ds s) = vms s"
  proof -
    fix ds s show "vms (depend_all ds s) = vms s"
      by (induction ds arbitrary: s) (simp_all add: depend_all_simps d)
  qed
  have cl: "\<And>ds s. vms (cleanup_loop w ds s) = vms s"
  proof -
    fix ds s show "vms (cleanup_loop w ds s) = vms s"
      by (induction ds arbitrary: s) (simp_all add: removeSub_fields)
  qed
  show ?thesis
    by (simp add: get_def Let_def call_getter_def call_traverse_def cleanupDeps_def da cl
        popTarget_def pushTarget_def handleError_def emit_def
        split: prod.splits completion.splits)
qed

lemma get_trace:
  assumes "get P w st = (r, st')"
  shows "\<exists>tr1 tr2. trace st' = trace st @ [PushTarget (Some w), GetterCall w] @ tr1
            @ [PopTarget, CleanupDeps w] @ tr2 \<and>
          (\<forall>e \<in> set tr2. \<exists>d. e = RemoveSub d w) \<and>
          (case fst (call_getter P w (pushTarget (Some w) st)) of
             Normal x \<Rightarrow> r = Normal x
           | Throw e \<Rightarrow>
               if user (watchers st w) then r = Normal VUndefined \<and>
                    HandleError e (vm (watchers st w)) \<in> set tr1
               else r = Throw e)"
proof -
  let ?s1 = "pushTarget (Some w) st"
  obtain o2 s2 where cg: "call_getter P w ?s1 = (o2, s2)" by (cases "call_getter P w ?s1")
  obtain X where c2: "collecting w st s2 X"
    using collecting_call_getter [OF collecting_push, of w st P] cg by auto
  have u2: "user (watchers s2 w) = user (watchers st w)"
      "vm (watchers ?s1 w) = vm (watchers st w)"
    using c2 by (simp_all add: collecting_def pushTarget_fields)
  obtain ta where ta: "trace s2 = trace st @ [PushTarget (Some w), GetterCall w] @ ta"
    using cg depend_all_trace [of "touches (case getter (watchers (emit (GetterCall w) ?s1) w) of
                  None \<Rightarrow> \<lparr>touches = [], outcome = Normal VUndefined\<rparr>
                | Some f \<Rightarrow> evaluators P f (emit (GetterCall w) ?s1))" "emit (GetterCall w) ?s1"]
    by (auto simp add: call_getter_def Let_def emit_fields pushTarget_fields)
  define rs where "rs = (case o2 of Normal x \<Rightarrow> (Normal x, s2)
              | Throw e \<Rightarrow>
                  if user (watchers s2 w)
                  then (Normal VUndefined, handleError e (vm (watchers ?s1 w)) s2)
                  else (Throw e, s2))"
  obtain res s3 where rs: "rs = (res, s3)" by (cases rs)
  have "\<exists>tb. trace s3 = trace st @ [PushTarget (Some w), GetterCall w] @ tb \<and>
          (case o2 of
             Normal x \<Rightarrow> res = Normal x
           | Throw e \<Rightarrow>
               if user (watchers st w) then res = Normal VUndefined \<and>
                    HandleError e (vm (watchers st w)) \<in> set tb
               else res = Throw e)"
    using rs ta u2 unfolding rs_def
    by (auto split: completion.splits if_splits simp: handleError_fields)
  then obtain tb where tb: "trace s3 = trace st @ [PushTarget (Some w), GetterCall w] @ tb"
      "(case o2 of
             Normal x \<Rightarrow> res = Normal x
           | Throw e \<Rightarrow>
               if user (watchers st w) then res = Normal VUndefined \<and>
                    HandleError e (vm (watchers st w)) \<in> set tb
               else res = Throw e)"
    by blast
  define s4 where "s4 = (if deep (watchers s3 w)
      then call_traverse P (case res of Normal x \<Rightarrow> x | Throw e \<Rightarrow> VUndefined) s3 else s3)"
  have "\<exists>tc. trace s4 = trace s3 @ tc"
    unfolding s4_def call_traverse_def Let_def
    using depend_all_trace
      [of _ "emit (Traverse (case res of Normal x \<Rightarrow> x | Throw e \<Rightarrow> VUndefined)) s3"]
    by (auto simp: emit_fields)
  then obtain tc where tc: "trace s4 = trace s3 @ tc" by blast
  have g: "get P w st = (res, cleanupDeps w (popTarget s4))"
    using cg rs unfolding get_def Let_def s4_def rs_def by simp
  obtain td where td:
      "trace (cleanup_loop w (rev (deps (watchers (emit (CleanupDeps w) (popTarget s4)) w)))
         (emit (CleanupDeps w) (popTarget s4))) = trace (emit (CleanupDeps w) (popTarget s4)) @ td"
      "\<forall>e \<in> set td. \<exists>d. e = RemoveSub d w"
    using cleanup_loop_trace by blast
  have "trace st' = trace st @ [PushTarget (Some w), GetterCall w] @ (tb @ tc)
            @ [PopTarget, CleanupDeps w] @ td"
    using g assms td(1) tb(1) tc
    by (simp add: cleanupDeps_def Let_def emit_fields popTarget_fields)
  moreover have "(case o2 of
             Normal x \<Rightarrow> r = Normal x
           | Throw e \<Rightarrow>
               if user (watchers st w) then r = Normal VUndefined \<and>
                    HandleError e (vm (watchers st w)) \<in> set (tb @ tc)
               else r = Throw e)"
    using tb(2) g assms by (auto split: completion.splits)
  ultimately show ?thesis
    using td(2) cg by (intro exI [of _ "tb @ tc"] exI [of _ td]) simp
qed


lemma get_targetStack: "targetStack (snd (get P w st)) = targetStack st"
proof -
  obtain s X where c: "collecting w st s X" and g: "snd (get P w st) = cleanupDeps w (popTarget s)"
    using get_mid by blast
  show ?thesis
    using c by (simp add: g cleanupDeps_targetStack popTarget_fields collecting_def)
qed

section \<open>run, update, notify, evaluate, teardown and the constructor\<close>


lemma run_active: "active (watchers (snd (run P w st)) u) = active (watchers st u)"
proof -
  obtain r s1 where g: "get P w st = (r, s1)" by (cases "get P w st")
  have a: "\<And>x. active (watchers s1 x) = active (watchers st x)"
    using get_fields(2) [of P w st] g by simp
  show ?thesis
    using g
    by (simp add: a run_def call_cb_def Let_def handleError_fields emit_fields
        split: completion.splits prod.splits)
qed


lemma update_active: "active (watchers (snd (update P w st)) u) = active (watchers st u)"
  by (simp add: update_def Let_def queueWatcher_def emit_fields run_active)

lemma evaluate_active: "active (watchers (snd (evaluate P w st)) u) = active (watchers st u)"
proof -
  obtain r s1 where g: "get P w st = (r, s1)" by (cases "get P w st")
  have a: "\<And>x. active (watchers s1 x) = active (watchers st x)"
    using get_fields(2) [of P w st] g by simp
  show ?thesis
    using g by (simp add: a evaluate_def Let_def split: completion.splits)
qed


lemma notify_each_active:
  "active (watchers (snd (notify_each P ws st)) u) = active (watchers st u)"
proof (induction ws arbitrary: st)
  case Nil
  then show ?case by simp
next
  case (Cons x ws)
  obtain r s1 where up: "update P x st = (r, s1)" by (cases "update P x st")
  have "active (watchers s1 u) = active (watchers st u)"
    using update_active [of P x st u] up by simp
  then show ?case
    using up Cons.IH [of s1] by (cases r) simp_all
qed

lemma notify_active: "active (watchers (snd (notify P d st)) u) = active (watchers st u)"
  by (simp add: notify_def Let_def notify_each_active emit_fields)




lemma removeSub_all_simps:
  "removeSub_all w [] st = st"
  "removeSub_all w (d # ds) st = removeSub_all w ds (removeSub d w st)"
  by (simp_all add: removeSub_all_def)

lemma removeSub_all_fields:
  "watchers (removeSub_all w ds st) = watchers st"
  "vms (removeSub_all w ds st) = vms st"
proof -
  show "watchers (removeSub_all w ds st) = watchers st"
    by (induction ds arbitrary: st) (simp_all add: removeSub_all_simps removeSub_fields)
  show "vms (removeSub_all w ds st) = vms st"
    by (induction ds arbitrary: st) (simp_all add: removeSub_all_simps removeSub_fields)
qed

lemma removeSub_all_subs:
  "\<forall>d. distinct (subs st d) \<Longrightarrow>
   set (subs (removeSub_all w ds st) d) =
     (if d \<in> set ds then set (subs st d) - {w} else set (subs st d))"
proof (induction ds arbitrary: st)
  case Nil
  then show ?case by (simp add: removeSub_all_simps)
next
  case (Cons e ds)
  have d: "\<forall>d. distinct (subs (removeSub e w st) d)"
    using Cons.prems by (simp add: removeSub_fields)
  show ?case
    using Cons.prems
    by (auto simp add: removeSub_all_simps Cons.IH [OF d] removeSub_fields)
qed

section \<open>The claims about Watcher\<close>

lemmas demo_defs = demo_state_def demo_program_def init_state_def idle_watcher_def
  empty_obj_def lazy_options_def

lemmas get_defs = get_def call_getter_def call_traverse_def cleanupDeps_def popTarget_def
  pushTarget_def handleError_def depend_all_def Dep_depend_def Dep_target_def addDep_def
  addSub_def removeSub_def emit_def Let_def



text \<open>
  C2. Whatever the evaluator does, \<open>get\<close> ends with the pop of the active-tracker slot
  followed by the reconciliation: the slot stack is as before the call, the new buffers
  are empty, and the trace of the call ends in \<open>PopTarget\<close>, \<open>CleanupDeps\<close> and the
  \<open>removeSub\<close> calls of the reconciliation. When the evaluator throws, a user watcher
  hands the error to \<open>handleError\<close> (before the pop) and \<open>get\<close> returns undefined; any
  other watcher re-raises the error to the caller, after the pop and the reconciliation.
\<close>

theorem get_always_pops_and_reconciles:
  assumes "get P w st = (r, st')"
  shows "targetStack st' = targetStack st \<and>
         newDeps (watchers st' w) = [] \<and> newDepIds (watchers st' w) = {} \<and>
         (\<exists>tr1 tr2. trace st' = trace st @ [PushTarget (Some w), GetterCall w] @ tr1
            @ [PopTarget, CleanupDeps w] @ tr2 \<and>
          (\<forall>e \<in> set tr2. \<exists>d. e = RemoveSub d w) \<and>
          (case fst (call_getter P w (pushTarget (Some w) st)) of
             Normal x \<Rightarrow> r = Normal x
           | Throw e \<Rightarrow>
               if user (watchers st w) then r = Normal VUndefined \<and>
                    HandleError e (vm (watchers st w)) \<in> set tr1
               else r = Throw e))"
proof -
  have s: "st' = snd (get P w st)" using assms by simp
  obtain X where "\<forall>u. watchers (snd (get P w st)) u =
     (if u = w then (watchers st w)\<lparr>depIds := newDepIds (watchers st w) \<union> set X, newDepIds := {},
          deps := newDeps (watchers st w) @ collect (newDepIds (watchers st w)) X, newDeps := []\<rparr>
      else watchers st u)"
    using get_watchers by blast
  then have "newDeps (watchers st' w) = []" "newDepIds (watchers st' w) = {}"
    by (simp_all add: s)
  moreover have "targetStack st' = targetStack st"
    by (simp add: s get_targetStack)
  ultimately show ?thesis using get_trace [OF assms] by blast
qed

theorem get_always_pops_and_reconciles_witness:
  "fst (get demo_program 3 demo_state) = Throw (Error ''boom'') \<and>
   targetStack (snd (get demo_program 3 demo_state)) = targetStack demo_state \<and>
   newDeps (watchers (snd (get demo_program 3 demo_state)) 3) = [] \<and>
   trace (snd (get demo_program 3 demo_state)) =
     [PushTarget (Some 3), GetterCall 3, DependCall 2, AddSub 2 3, PopTarget, CleanupDeps 3] \<and>
   fst (get demo_program 4 demo_state) = Normal VUndefined \<and>
   trace (snd (get demo_program 4 demo_state)) =
     [PushTarget (Some 4), GetterCall 4, DependCall 2, AddSub 2 4, HandleError (Error ''boom'') 0,
      Traverse VUndefined, DependCall 3, AddSub 3 4, PopTarget, CleanupDeps 4]"
  using get_always_pops_and_reconciles [of demo_program 3 demo_state
      "fst (get demo_program 3 demo_state)" "snd (get demo_program 3 demo_state)"]
  by (simp add: demo_defs get_defs)

lemmas run_defs = run_def call_cb_def update_def evaluate_def queueWatcher_def strict_eq_def
  isObject_def

text \<open>
  C5. \<open>run\<close> does nothing on an inactive watcher. On an active one it evaluates \<open>get\<close>;
  when \<open>get\<close> re-raises, so does \<open>run\<close>. Otherwise the callback is invoked, once and with
  (new value, old value), and the cached value is replaced, exactly when the new value is
  not \<open>===\<close> the cached one, or is a container, or the watcher is deep; if not, neither
  happens. An exception of the callback is handed to \<open>handleError\<close> when the watcher is
  a user watcher (and \<open>run\<close> returns), and propagates otherwise.
\<close>

theorem run_fires_callback_iff_changed:
  assumes "run P w st = (r, st')"
  shows "if \<not> active (watchers st w) then r = Normal () \<and> st' = st
         else (case get P w st of
                 (Throw e, st1) \<Rightarrow> r = Throw e \<and> st' = st1
               | (Normal v, st1) \<Rightarrow>
                   (let old = cached (watchers st w); wt = watchers st w in
                    if \<not> strict_eq v old \<or> isObject v \<or> deep wt
                    then cached (watchers st' w) = v \<and>
                         callback_calls (trace st') = callback_calls (trace st) @ [(w, v, old)] \<and>
                         (case callbacks P (cb wt) (vm wt) v old of
                            Normal u \<Rightarrow> r = Normal () \<and>
                              trace st' = trace st1 @ [CallbackCall w v old]
                          | Throw e \<Rightarrow>
                              if user wt
                              then r = Normal () \<and> trace st' = trace st1 @
                                     [CallbackCall w v old, HandleError e (vm wt)]
                              else r = Throw e \<and> trace st' = trace st1 @ [CallbackCall w v old])
                    else r = Normal () \<and> cached (watchers st' w) = old \<and>
                         callback_calls (trace st') = callback_calls (trace st)))"
proof (cases "active (watchers st w)")
  case False
  then show ?thesis using assms by (simp add: run_def)
next
  case True
  obtain g st1 where G: "get P w st = (g, st1)" by (cases "get P w st")
  have s1: "st1 = snd (get P w st)" using G by simp
  have f: "cached (watchers st1 w) = cached (watchers st w)"
      "user (watchers st1 w) = user (watchers st w)"
      "deep (watchers st1 w) = deep (watchers st w)"
      "vm (watchers st1 w) = vm (watchers st w)"
      "cb (watchers st1 w) = cb (watchers st w)"
    by (simp_all add: s1 get_fields)
  have c: "callback_calls (trace st1) = callback_calls (trace st)"
    by (simp add: s1 get_calls)
  show ?thesis
  proof (cases g)
    case (Throw e)
    then show ?thesis using assms True G by (simp add: run_def)
  next
    case (Normal v)
    show ?thesis
    proof (cases "\<not> strict_eq v (cached (watchers st w)) \<or> isObject v \<or> deep (watchers st w)")
      case False
      then show ?thesis
        using assms True G Normal f c by (auto simp add: run_def Let_def)
    next
      case fire: True
      then show ?thesis
        using assms True G Normal f c
        by (auto simp add: run_def Let_def call_cb_def handleError_fields emit_fields
            calls_simps split: completion.splits)
    qed
  qed
qed

theorem run_fires_callback_iff_changed_witness:
  "fst (run demo_program 2 demo_state) = Normal () \<and>
   cached (watchers (snd (run demo_program 2 demo_state)) 2) = VNum 7 \<and>
   callback_calls (trace (snd (run demo_program 2 demo_state))) = [(2, VNum 7, VUndefined)] \<and>
   trace (snd (run demo_program 2 demo_state)) =
     trace (snd (get demo_program 2 demo_state)) @
       [CallbackCall 2 (VNum 7) VUndefined, HandleError (Error ''callback'') 0]"
  using run_fires_callback_iff_changed [of demo_program 2 demo_state
      "fst (run demo_program 2 demo_state)" "snd (run demo_program 2 demo_state)"]
  by (simp add: demo_defs get_defs run_defs calls_simps)

text \<open>
  C6. Constructing a watcher with the lazy option succeeds without invoking the
  evaluator: the cached value is undefined and the dirty flag is set. \<open>update\<close> of a lazy
  watcher does not evaluate either. \<open>evaluate\<close> invokes \<open>get\<close> (one evaluator call); when
  \<open>get\<close> returns a value it becomes the cached value and the dirty flag is cleared, and
  when \<open>get\<close> re-raises, so does \<open>evaluate\<close>.
\<close>

theorem lazy_watcher_defers_evaluation:
  assumes "o_lazy opts" and "new_Watcher P v e c (Some opts) isRenderWatcher st = (r, st1)"
    and "w = Suc (uid st)"
  shows "r = Normal w \<and> cached (watchers st1 w) = VUndefined \<and> dirty (watchers st1 w) \<and>
         lazy (watchers st1 w) \<and> active (watchers st1 w) \<and>
         getter_calls (trace st1) = getter_calls (trace st) \<and>
         getter_calls (trace (snd (update P w st1))) = getter_calls (trace st1) \<and>
         (\<forall>s. getter_calls (trace (snd (evaluate P w s))) = getter_calls (trace s) @ [w] \<and>
              (case get P w s of
                 (Normal x, s1) \<Rightarrow> fst (evaluate P w s) = Normal () \<and>
                     cached (watchers (snd (evaluate P w s)) w) = x \<and>
                     \<not> dirty (watchers (snd (evaluate P w s)) w)
               | (Throw x, s1) \<Rightarrow> evaluate P w s = (Throw x, s1)))"
proof -
  have c: "r = Normal w \<and> cached (watchers st1 w) = VUndefined \<and> dirty (watchers st1 w) \<and>
         lazy (watchers st1 w) \<and> active (watchers st1 w) \<and>
         getter_calls (trace st1) = getter_calls (trace st)"
    using assms
    by (auto simp add: new_Watcher_def Let_def emit_fields calls_simps
        split: expOrFn.splits option.splits if_splits)
  have u: "getter_calls (trace (snd (update P w st1))) = getter_calls (trace st1)"
    using c by (simp add: update_def Let_def emit_fields calls_simps)
  have ev: "\<forall>s. getter_calls (trace (snd (evaluate P w s))) = getter_calls (trace s) @ [w] \<and>
              (case get P w s of
                 (Normal x, s1) \<Rightarrow> fst (evaluate P w s) = Normal () \<and>
                     cached (watchers (snd (evaluate P w s)) w) = x \<and>
                     \<not> dirty (watchers (snd (evaluate P w s)) w)
               | (Throw x, s1) \<Rightarrow> evaluate P w s = (Throw x, s1))"
  proof
    fix s
    obtain g s1 where G: "get P w s = (g, s1)" by (cases "get P w s")
    have "getter_calls (trace s1) = getter_calls (trace s) @ [w]"
      using get_calls(2) [of P w s] G by simp
    then show "getter_calls (trace (snd (evaluate P w s))) = getter_calls (trace s) @ [w] \<and>
              (case get P w s of
                 (Normal x, s1) \<Rightarrow> fst (evaluate P w s) = Normal () \<and>
                     cached (watchers (snd (evaluate P w s)) w) = x \<and>
                     \<not> dirty (watchers (snd (evaluate P w s)) w)
               | (Throw x, s1) \<Rightarrow> evaluate P w s = (Throw x, s1))"
      using G by (cases g) (simp_all add: evaluate_def Let_def)
  qed
  show ?thesis using c u ev by blast
qed

theorem lazy_watcher_defers_evaluation_witness:
  "o_lazy lazy_options \<and>
   fst (new_Watcher demo_program 0 (Fn 0) 0 (Some lazy_options) False init_state) = Normal 1 \<and>
   cached (watchers (snd (new_Watcher demo_program 0 (Fn 0) 0 (Some lazy_options) False init_state))
      1) = VUndefined \<and>
   dirty (watchers (snd (new_Watcher demo_program 0 (Fn 0) 0 (Some lazy_options) False init_state))
      1) \<and>
   getter_calls (trace (snd (new_Watcher demo_program 0 (Fn 0) 0 (Some lazy_options) False
      init_state))) = [] \<and>
   cached (watchers (snd (evaluate demo_program 1
      (snd (new_Watcher demo_program 0 (Fn 0) 0 (Some lazy_options) False init_state)))) 1)
     = VNum 7"
  using lazy_watcher_defers_evaluation [of lazy_options demo_program 0 "Fn 0" 0 False init_state
      "fst (new_Watcher demo_program 0 (Fn 0) 0 (Some lazy_options) False init_state)"
      "snd (new_Watcher demo_program 0 (Fn 0) 0 (Some lazy_options) False init_state)" 1]
  by (simp add: demo_defs get_defs run_defs new_Watcher_def calls_simps)

lemma removeSub_all_removeSub_calls:
  "removeSub_calls (trace (removeSub_all w ds st)) =
     removeSub_calls (trace st) @ map (\<lambda>d. (d, w)) ds"
  by (induction ds arbitrary: st)
     (simp_all add: removeSub_all_simps removeSub_fields calls_simps)

text \<open>
  C9. \<open>teardown\<close> on an active watcher calls \<open>removeSub\<close> on every Dep the watcher holds
  (so that, subscriber lists being duplicate-free, it is subscribed to none of them),
  takes the watcher out of the owner's watcher list unless the owner is being destroyed,
  and clears \<open>active\<close>. On an inactive watcher it changes nothing; so a second \<open>teardown\<close>
  changes nothing. No operation of the watcher sets \<open>active\<close> again.
\<close>

theorem teardown_idempotent:
  "teardown w (teardown w st) = teardown w st \<and>
   \<not> active (watchers (teardown w st) w) \<and>
   (\<not> active (watchers st w) \<longrightarrow> teardown w st = st) \<and>
   (active (watchers st w) \<longrightarrow>
      removeSub_calls (trace (teardown w st)) =
        removeSub_calls (trace st) @ map (\<lambda>d. (d, w)) (rev (deps (watchers st w))) \<and>
      (Dep_inv st \<longrightarrow> (\<forall>d \<in> set (deps (watchers st w)). w \<notin> set (subs (teardown w st) d))) \<and>
      vm_watchers (vms (teardown w st) (vm (watchers st w))) =
        (if isBeingDestroyed (vms st (vm (watchers st w)))
         then vm_watchers (vms st (vm (watchers st w)))
         else remove1 w (vm_watchers (vms st (vm (watchers st w)))))) \<and>
   (\<forall>P u s. \<not> active (watchers s w) \<longrightarrow>
      \<not> active (watchers (snd (get P u s)) w) \<and> \<not> active (watchers (snd (run P u s)) w) \<and>
      \<not> active (watchers (snd (update P u s)) w) \<and>
      \<not> active (watchers (snd (evaluate P u s)) w) \<and>
      \<not> active (watchers (snd (notify P u s)) w) \<and> \<not> active (watchers (teardown u s) w))"
proof -
  have 1: "\<not> active (watchers (teardown w st) w)"
    by (simp add: teardown_def Let_def removeSub_all_fields)
  have 2: "\<not> active (watchers st w) \<longrightarrow> teardown w st = st"
    by (simp add: teardown_def)
  have 3: "teardown w (teardown w st) = teardown w st"
    using 1 by (simp add: teardown_def [of w "teardown w st"])
  have 4: "active (watchers st w) \<longrightarrow>
      removeSub_calls (trace (teardown w st)) =
        removeSub_calls (trace st) @ map (\<lambda>d. (d, w)) (rev (deps (watchers st w)))"
    by (simp add: teardown_def Let_def removeSub_all_removeSub_calls)
  have 5: "active (watchers st w) \<longrightarrow> Dep_inv st \<longrightarrow>
      (\<forall>d \<in> set (deps (watchers st w)). w \<notin> set (subs (teardown w st) d))"
    by (simp add: teardown_def Let_def Dep_inv_def removeSub_all_subs)
  have 6: "active (watchers st w) \<longrightarrow>
      vm_watchers (vms (teardown w st) (vm (watchers st w))) =
        (if isBeingDestroyed (vms st (vm (watchers st w)))
         then vm_watchers (vms st (vm (watchers st w)))
         else remove1 w (vm_watchers (vms st (vm (watchers st w)))))"
    by (simp add: teardown_def Let_def removeSub_all_fields)
  have 7: "\<forall>P u s. \<not> active (watchers s w) \<longrightarrow>
      \<not> active (watchers (snd (get P u s)) w) \<and> \<not> active (watchers (snd (run P u s)) w) \<and>
      \<not> active (watchers (snd (update P u s)) w) \<and>
      \<not> active (watchers (snd (evaluate P u s)) w) \<and>
      \<not> active (watchers (snd (notify P u s)) w) \<and> \<not> active (watchers (teardown u s) w)"
    by (simp add: get_fields run_active update_active evaluate_active notify_active
        teardown_def Let_def removeSub_all_fields)
  show ?thesis using 1 2 3 4 5 6 7 by blast
qed

theorem teardown_idempotent_witness:
  "active (watchers demo_state 1) \<and> Dep_inv demo_state \<and>
   teardown 1 (teardown 1 demo_state) = teardown 1 demo_state \<and>
   \<not> active (watchers (teardown 1 demo_state) 1) \<and>
   subs (teardown 1 demo_state) 0 = [] \<and>
   vm_watchers (vms (teardown 1 demo_state) 0) = [2, 3, 4] \<and>
   fst (run demo_program 1 (teardown 1 demo_state)) = Normal () \<and>
   snd (run demo_program 1 (teardown 1 demo_state)) = teardown 1 demo_state"
proof -
  have a: "active (watchers demo_state 1)" "Dep_inv demo_state"
      "deps (watchers demo_state 1) = [0]" "vm (watchers demo_state 1) = 0"
      "\<not> isBeingDestroyed (vms demo_state 0)"
      "vm_watchers (vms demo_state 0) = [1, 2, 3, 4]"
      "subs demo_state 0 = [1]"
    by (simp_all add: demo_defs Dep_inv_def)
  have s: "subs (teardown 1 demo_state) 0 = [] \<and>
      vm_watchers (vms (teardown 1 demo_state) 0) = [2, 3, 4]"
    by (simp add: demo_defs teardown_def removeSub_all_def removeSub_def emit_def Let_def)
  have t: "teardown 1 (teardown 1 demo_state) = teardown 1 demo_state \<and>
      \<not> active (watchers (teardown 1 demo_state) 1)"
    using teardown_idempotent [of 1 demo_state] by blast
  then have "run demo_program 1 (teardown 1 demo_state) = (Normal (), teardown 1 demo_state)"
    by (simp add: run_def)
  then show ?thesis using a(1,2) s t by simp
qed

section \<open>Frame lemmas for reads and for observing\<close>

lemma calls_more_append:
  "observe_calls (a @ b) = observe_calls a @ observe_calls b"
  "user_getter_calls (a @ b) = user_getter_calls a @ user_getter_calls b"
  by (simp_all add: observe_calls_def user_getter_calls_def)

lemma calls_more_Nil: "observe_calls [] = []" "user_getter_calls [] = []"
  by (simp_all add: observe_calls_def user_getter_calls_def)

lemma calls_more_Cons:
  "observe_calls (e # tr) = (case e of ObserveCall v \<Rightarrow> [v] | _ \<Rightarrow> []) @ observe_calls tr"
  "user_getter_calls (e # tr) =
     (case e of UserGetterCall c \<Rightarrow> [c] | _ \<Rightarrow> []) @ user_getter_calls tr"
  by (simp_all add: observe_calls_def user_getter_calls_def)

lemmas calls_more = calls_more_append calls_more_Nil calls_more_Cons

lemma reads_only_refl: "reads_only st st"
  by (simp add: reads_only_def)

lemma reads_only_trans: "reads_only a b \<Longrightarrow> reads_only b c \<Longrightarrow> reads_only a c"
  by (simp add: reads_only_def)

lemma reads_only_Dep_depend: "reads_only st (Dep_depend d st)"
  by (simp add: reads_only_def Dep_depend_def Dep_target_def emit_def addDep_def addSub_def
      Let_def calls_simps calls_more split: list.split option.split)

lemma reads_only_depend_childOb: "reads_only st (depend_childOb i st)"
  by (simp add: depend_childOb_def reads_only_Dep_depend)

lemma reads_only_depend_ob_of: "reads_only st (depend_ob_of e st)"
  by (simp add: depend_ob_of_def reads_only_depend_childOb reads_only_refl split: option.split)

lemma reads_only_UserGetter:
  "call_UserGetter c st = Some (r, st') \<Longrightarrow> reads_only st st'"
  by (auto simp add: call_UserGetter_def reads_only_def emit_def calls_simps calls_more)

lemma bnd_Some:
  "bnd m f = Some (r, st') \<longleftrightarrow>
     (\<exists>e. m = Some (Throw e, st') \<and> r = Throw e) \<or>
     (\<exists>x st1. m = Some (Normal x, st1) \<and> f x st1 = Some (r, st'))"
  by (auto simp: bnd_def split: option.splits completion.splits prod.splits)

lemma reads_only_steps:
  "reads_only s0 st \<Longrightarrow> reads_only s0 (Dep_depend d st)"
  "reads_only s0 st \<Longrightarrow> reads_only s0 (depend_childOb i st)"
  "reads_only s0 st \<Longrightarrow> reads_only s0 (depend_ob_of e st)"
  "reads_only s0 st \<Longrightarrow> call_UserGetter c st = Some (r, st') \<Longrightarrow> reads_only s0 st'"
  using reads_only_Dep_depend reads_only_depend_childOb reads_only_depend_ob_of
    reads_only_UserGetter reads_only_trans by blast+

lemma dependArray_reads_only:
  "reads_only s0 st \<Longrightarrow> dependArray n v st = Some (r4, st') \<Longrightarrow> reads_only s0 st'"
  "reads_only s0 st \<Longrightarrow> dependArray_loop n es st = Some (r5, st') \<Longrightarrow> reads_only s0 st'"
proof (induction n v st and n es st arbitrary: s0 r4 st' and s0 r5 st'
    rule: dependArray_dependArray_loop.induct)
  case (1 v st)
  then show ?case by simp
next
  case (2 n v st)
  then show ?case by simp
next
  case (3 n st)
  then show ?case by simp
next
  case (4 n e es st)
  have a: "reads_only s0 (depend_ob_of e st)"
    using "4.prems"(1) by (rule reads_only_steps)
  from "4.prems"(2) consider
    (thr) x where "(if is_array (depend_ob_of e st) e then dependArray n e (depend_ob_of e st)
          else Some (Normal (), depend_ob_of e st)) = Some (Throw x, st')"
  | (ok) x st1 where "(if is_array (depend_ob_of e st) e then dependArray n e (depend_ob_of e st)
          else Some (Normal (), depend_ob_of e st)) = Some (Normal x, st1)"
      "dependArray_loop n es st1 = Some (r5, st')"
    by (auto simp: bnd_Some)
  then show ?case
  proof cases
    case thr
    then show ?thesis using a "4.IH"(1) by (auto split: if_splits)
  next
    case ok
    have "reads_only s0 st1" using ok(1) a "4.IH"(1) by (auto split: if_splits)
    then show ?thesis using "4.IH"(2) [OF ok(1) _ ok(2)] by blast
  qed
qed

lemma track_read_reads_only:
  assumes "reads_only s0 st" and "track_read n cl v st = Some (r, st')"
  shows "reads_only s0 st'"
proof (cases "Dep_target st \<noteq> None")
  case False
  then show ?thesis using assms by (simp add: track_read_def)
next
  case True
  let ?s1 = "Dep_depend (c_dep (closures st cl)) st"
  have a: "reads_only s0 ?s1" using assms(1) by (rule reads_only_steps)
  show ?thesis
  proof (cases "c_childOb (closures ?s1 cl)")
    case None
    then show ?thesis using assms(2) True a by (simp add: track_read_def Let_def)
  next
    case (Some i)
    have b: "reads_only s0 (depend_childOb i ?s1)" using a by (rule reads_only_steps)
    show ?thesis
    proof (cases "is_array (depend_childOb i ?s1) v")
      case False
      then show ?thesis using assms(2) True Some b by (simp add: track_read_def Let_def)
    next
      case arr: True
      then obtain r4 where "dependArray n v (depend_childOb i ?s1) = Some (r4, st')"
        using assms(2) True Some by (auto simp add: track_read_def Let_def bnd_Some)
      then show ?thesis using b dependArray_reads_only(1) by blast
    qed
  qed
qed

lemma getters_read_only:
  "reads_only s0 st \<Longrightarrow> call_getter_fn n g st = Some (r1, st') \<Longrightarrow> reads_only s0 st'"
  "reads_only s0 st \<Longrightarrow> closure_value n cl st = Some (r2, st') \<Longrightarrow> reads_only s0 st'"
  "reads_only s0 st \<Longrightarrow> reactiveGetter n cl st = Some (r3, st') \<Longrightarrow> reads_only s0 st'"
proof (induction n g st and n cl st and n cl st
    arbitrary: s0 r1 st' and s0 r2 st' and s0 r3 st'
    rule: call_getter_fn_closure_value_reactiveGetter.induct)
  case (1 n c st)
  then show ?case by (auto intro: reads_only_steps)
next
  case (2 n cl st)
  then show ?case by simp
next
  case (3 n cl st)
  then show ?case by (auto split: option.splits)
next
  case (4 cl st)
  then show ?case by simp
next
  case (5 n cl st)
  from "5.prems"(2) consider
    (thr) x where "closure_value n cl st = Some (Throw x, st')"
  | (ok) x st1 where "closure_value n cl st = Some (Normal x, st1)"
      "track_read n cl x st1 = Some (r3, st')"
    by (auto simp: bnd_Some simp del: closure_value.simps)
  then show ?case
  proof cases
    case thr
    then show ?thesis using "5.prems"(1) "5.IH" by blast
  next
    case ok
    have "reads_only s0 st1" using ok(1) "5.prems"(1) "5.IH" by blast
    then show ?thesis using ok(2) track_read_reads_only by blast
  qed
qed

lemma objs_grow_refl: "objs_grow st st" by (simp add: objs_grow_def)
lemma observers_grow_refl: "observers_grow st st" by (simp add: observers_grow_def)
lemma closures_grow_refl: "closures_grow st st" by (simp add: closures_grow_def)
lemma quiet_refl: "quiet st st" by (simp add: quiet_def)

lemma objs_grow_trans: "objs_grow a b \<Longrightarrow> objs_grow b c \<Longrightarrow> objs_grow a c"
  by (simp add: objs_grow_def)

lemma observers_grow_trans: "observers_grow a b \<Longrightarrow> observers_grow b c \<Longrightarrow> observers_grow a c"
  by (auto simp add: observers_grow_def)

lemma closures_grow_trans: "closures_grow a b \<Longrightarrow> closures_grow b c \<Longrightarrow> closures_grow a c"
  by (auto simp add: closures_grow_def)

lemma quiet_trans: "quiet a b \<Longrightarrow> quiet b c \<Longrightarrow> quiet a c"
  by (simp add: quiet_def)

lemma observes_only_refl: "observes_only st st"
  by (simp add: observes_only_def objs_grow_refl observers_grow_refl closures_grow_refl
      quiet_refl)

lemma observes_only_trans:
  "observes_only a b \<Longrightarrow> observes_only b c \<Longrightarrow> observes_only a c"
  unfolding observes_only_def
  using objs_grow_trans observers_grow_trans closures_grow_trans quiet_trans by blast

lemma reads_only_observes_only: "reads_only st st' \<Longrightarrow> observes_only st st'"
  by (simp add: reads_only_def observes_only_def objs_grow_def observers_grow_def
      closures_grow_def quiet_def)

lemma observes_only_emit:
  "\<forall>d u. e \<noteq> NotifyCall d \<and> e \<noteq> UpdateCall u \<Longrightarrow> observes_only st (emit e st)"
  by (cases e) (simp_all add: observes_only_def objs_grow_def observers_grow_def
      closures_grow_def quiet_def emit_def calls_simps)

lemma observes_only_count_root: "observes_only st (count_root a i st)"
  by (simp add: count_root_def observes_only_def objs_grow_def observers_grow_def
      closures_grow_def quiet_def split: option.split)

lemma observes_only_new_Dep: "observes_only st (snd (new_Dep st))"
  by (simp add: new_Dep_def observes_only_def objs_grow_def observers_grow_def
      closures_grow_def quiet_def)

lemma observes_only_attach:
  "ob (objs st r) = None \<Longrightarrow> observes_only st (snd (attach_Observer r st))"
  by (simp add: attach_Observer_def new_Dep_def Let_def observes_only_def objs_grow_def
      observers_grow_def closures_grow_def quiet_def)

lemma attach_marker:
  "ob (objs (snd (attach_Observer r st)) r) = Some (fst (attach_Observer r st))"
  by (simp add: attach_Observer_def new_Dep_def Let_def)

lemma observes_only_defineProperty:
  "defineProperty r k p st = Some (c, st') \<Longrightarrow> observes_only st st'"
  by (auto simp add: defineProperty_def Let_def observes_only_def objs_grow_def
      observers_grow_def closures_grow_def quiet_def split: if_splits)

lemma observes_only_install:
  "install_accessors r k d p v co cs sh st = Some (c, st') \<Longrightarrow> observes_only st st'"
  by (auto simp add: install_accessors_def defineProperty_def Let_def observes_only_def
      objs_grow_def observers_grow_def closures_grow_def quiet_def split: if_splits)

lemma prop_read_reads_only:
  "prop_read n r k st = Some (c, st') \<Longrightarrow> reads_only st st'"
  using getters_read_only(1) [OF reads_only_refl]
  by (auto simp add: prop_read_def reads_only_refl split: option.splits property.splits)

lemma observes_only_initial_val:
  "initial_val n r k p vo st = Some (c, st') \<Longrightarrow> observes_only st st'"
  using prop_read_reads_only
  by (auto simp add: initial_val_def Let_def observes_only_refl
      intro: reads_only_observes_only split: if_splits)


lemma observes_only_steps:
  "observes_only s0 st \<Longrightarrow> \<forall>d u. e \<noteq> NotifyCall d \<and> e \<noteq> UpdateCall u
     \<Longrightarrow> observes_only s0 (emit e st)"
  "observes_only s0 st \<Longrightarrow> observes_only s0 (count_root a i st)"
  "observes_only s0 st \<Longrightarrow> observes_only s0 (snd (new_Dep st))"
  "observes_only s0 st \<Longrightarrow> ob (objs st r) = None
     \<Longrightarrow> observes_only s0 (snd (attach_Observer r st))"
  "observes_only s0 st \<Longrightarrow> install_accessors r k d p v co cs sh st = Some (c, st')
     \<Longrightarrow> observes_only s0 st'"
  "observes_only s0 st \<Longrightarrow> initial_val n r k p vo st = Some (c2, st')
     \<Longrightarrow> observes_only s0 st'"
proof -
  show "observes_only s0 st \<Longrightarrow> \<forall>d u. e \<noteq> NotifyCall d \<and> e \<noteq> UpdateCall u
     \<Longrightarrow> observes_only s0 (emit e st)"
    using observes_only_emit [of e st] observes_only_trans by blast
  show "observes_only s0 st \<Longrightarrow> observes_only s0 (count_root a i st)"
    using observes_only_count_root observes_only_trans by blast
  show "observes_only s0 st \<Longrightarrow> observes_only s0 (snd (new_Dep st))"
    using observes_only_new_Dep observes_only_trans by blast
  show "observes_only s0 st \<Longrightarrow> ob (objs st r) = None
     \<Longrightarrow> observes_only s0 (snd (attach_Observer r st))"
    using observes_only_attach observes_only_trans by blast
  show "observes_only s0 st \<Longrightarrow> install_accessors r k d p v co cs sh st = Some (c, st')
     \<Longrightarrow> observes_only s0 st'"
    using observes_only_install observes_only_trans by blast
  show "observes_only s0 st \<Longrightarrow> initial_val n r k p vo st = Some (c2, st')
     \<Longrightarrow> observes_only s0 st'"
    using observes_only_initial_val observes_only_trans by blast
qed

lemma observe_group_observes_only:
  "observes_only s0 st \<Longrightarrow> observe P n v a st = Some (c1, st') \<Longrightarrow> observes_only s0 st'"
  "observes_only s0 st \<Longrightarrow> ob (objs st r) = None \<Longrightarrow> new_Observer P n r st = Some (c2, st')
     \<Longrightarrow> observes_only s0 st'"
  "observes_only s0 st \<Longrightarrow> walk P n r ks st = Some (c3, st') \<Longrightarrow> observes_only s0 st'"
  "observes_only s0 st \<Longrightarrow> observeArray P n vs st = Some (c4, st') \<Longrightarrow> observes_only s0 st'"
  "observes_only s0 st \<Longrightarrow> defineReactive P n r k vo cs sh st = Some (c5, st')
     \<Longrightarrow> observes_only s0 st'"
proof (induction P n v a st and P n r st and P n r ks st and P n vs st and P n r k vo cs sh st
    arbitrary: s0 c1 st' and s0 c2 st' and s0 c3 st' and s0 c4 st' and s0 c5 st'
    rule: observe_new_Observer_walk_observeArray_defineReactive.induct)
  case (1 P n r asRootData st0)
  let ?st = "emit (ObserveCall (VRef r)) st0"
  have a: "observes_only s0 ?st" using "1.prems"(1) by (simp add: observes_only_steps(1))
  show ?case
  proof (cases "kind (objs ?st r) = VNode")
    case True
    then show ?thesis using "1.prems"(2) a by (simp add: Let_def)
  next
    case False
    show ?thesis
    proof (cases "ob (objs ?st r)")
      case (Some i)
      then show ?thesis
        using "1.prems"(2) a False by (auto simp add: Let_def bnd_def observes_only_steps(1,2))
    next
      case None
      show ?thesis
      proof (cases "should_create P ?st r")
        case no: False
        then show ?thesis
          using "1.prems"(2) a False None
          by (auto simp add: Let_def bnd_def observes_only_steps(1,2))
      next
        case True
        from "1.prems"(2) False None True consider
          (thr) e where "new_Observer P n r ?st = Some (Throw e, st')"
        | (ok) i st1 where "new_Observer P n r ?st = Some (Normal i, st1)"
            "st' = count_root asRootData (Some i) st1"
          by (auto simp add: Let_def bnd_Some)
        then show ?thesis
        proof cases
          case thr
          then show ?thesis using "1.IH" [OF refl False None True a None] by blast
        next
          case ok
          have "observes_only s0 st1" using "1.IH" [OF refl False None True a None] ok(1) by blast
          then show ?thesis by (simp add: ok(2) observes_only_steps(2))
        qed
      qed
    qed
  qed
next
  case "2_1"
  then show ?case by (auto simp add: observes_only_steps(1))
next
  case "2_2"
  then show ?case by (auto simp add: observes_only_steps(1))
next
  case "2_3"
  then show ?case by (auto simp add: observes_only_steps(1))
next
  case "2_4"
  then show ?case by (auto simp add: observes_only_steps(1))
next
  case "2_5"
  then show ?case by (auto simp add: observes_only_steps(1))
next
  case "2_6"
  then show ?case by (auto simp add: observes_only_steps(1))
next
  case "2_7"
  then show ?case by (auto simp add: observes_only_steps(1))
next
  case (3 P r st)
  then show ?case by simp
next
  case (4 P n r st)
  let ?s = "snd (attach_Observer r st)"
  have a: "observes_only s0 ?s" using "4.prems"(1,2) by (simp add: observes_only_steps(4))
  show ?case
  proof (cases "kind (objs ?s r) = Array")
    case True
    then obtain c where "observeArray P n (elems (objs ?s r)) ?s = Some (c, st')"
      using "4.prems"(3) by (auto simp add: bnd_Some)
    then show ?thesis using "4.IH"(1) [OF True a] by blast
  next
    case False
    then obtain c where "walk P n r (Object_keys (objs ?s r)) ?s = Some (c, st')"
      using "4.prems"(3) by (auto simp add: bnd_Some)
    then show ?thesis using "4.IH"(2) [OF False a] by blast
  qed
next
  case (5 P n r st)
  then show ?case by simp
next
  case (6 P n r k ks st)
  from "6.prems"(2) consider
    (thr) e where "defineReactive P n r k None None False st = Some (Throw e, st')"
  | (ok) x st1 where "defineReactive P n r k None None False st = Some (Normal x, st1)"
      "walk P n r ks st1 = Some (c3, st')"
    by (auto simp add: bnd_Some)
  then show ?case
  proof cases
    case thr
    then show ?thesis using "6.IH"(1) "6.prems"(1) by blast
  next
    case ok
    have "observes_only s0 st1" using "6.IH"(1) "6.prems"(1) ok(1) by blast
    then show ?thesis using "6.IH"(2) [OF ok(1) _ ok(2)] by blast
  qed
next
  case (7 P n st)
  then show ?case by simp
next
  case (8 P n v vs st)
  from "8.prems"(2) consider
    (thr) e where "observe P n v False st = Some (Throw e, st')"
  | (ok) x st1 where "observe P n v False st = Some (Normal x, st1)"
      "observeArray P n vs st1 = Some (c4, st')"
    by (auto simp add: bnd_Some)
  then show ?case
  proof cases
    case thr
    then show ?thesis using "8.IH"(1) "8.prems"(1) by blast
  next
    case ok
    have "observes_only s0 st1" using "8.IH"(1) "8.prems"(1) ok(1) by blast
    then show ?thesis using "8.IH"(2) [OF ok(1) _ ok(2)] by blast
  qed
next
  case (9 P n r k valopt customSetter shallow st0)
  let ?s = "snd (new_Dep st0)"
  let ?p = "getOwnPropertyDescriptor (objs ?s r) k"
  have a: "observes_only s0 ?s" using "9.prems"(1) by (simp add: observes_only_steps(3))
  show ?case
  proof (cases "case ?p of Some p \<Rightarrow> \<not> configurable p | None \<Rightarrow> False")
    case True
    then show ?thesis using "9.prems"(2) a by simp
  next
    case False
    from "9.prems"(2) False consider
      (thr) e where "initial_val n r k ?p valopt ?s = Some (Throw e, st')"
    | (ok) x st1 where "initial_val n r k ?p valopt ?s = Some (Normal x, st1)"
        "bnd (if \<not> shallow then observe P n x False st1 else Some (Normal None, st1))
           (\<lambda>childOb st2. install_accessors r k (fst (new_Dep st0)) ?p x childOb customSetter
              shallow st2) = Some (c5, st')"
      by (auto simp add: bnd_Some)
    then show ?thesis
    proof cases
      case thr
      then show ?thesis using a observes_only_steps(6) by blast
    next
      case ok
      have b: "observes_only s0 st1" using a ok(1) observes_only_steps(6) by blast
      from ok(2) consider
        (thr2) e where "(if \<not> shallow then observe P n x False st1 else Some (Normal None, st1))
            = Some (Throw e, st')"
      | (ok2) co st2 where "(if \<not> shallow then observe P n x False st1 else Some (Normal None, st1))
            = Some (Normal co, st2)"
          "install_accessors r k (fst (new_Dep st0)) ?p x co customSetter shallow st2
            = Some (c5, st')"
        by (auto simp add: bnd_Some)
      then show ?thesis
      proof cases
        case thr2
        then show ?thesis using "9.IH" [OF False ok(1) _ b] by (auto split: if_splits)
      next
        case ok2
        have "observes_only s0 st2"
          using ok2(1) "9.IH" [OF False ok(1) _ b] b by (auto split: if_splits)
        then show ?thesis using ok2(2) observes_only_steps(5) by blast
      qed
    qed
  qed
qed

lemma new_Observer_marker:
  assumes "new_Observer P n r st = Some (Normal i, st')"
  shows "ob (objs st' r) = Some i"
proof (cases n)
  case 0
  then show ?thesis using assms by simp
next
  case (Suc m)
  let ?s = "snd (attach_Observer r st)"
  have i: "i = fst (attach_Observer r st)"
    using assms Suc by (auto simp add: bnd_Some)
  have "\<exists>c. (if kind (objs ?s r) = Array then observeArray P m (elems (objs ?s r)) ?s
          else walk P m r (Object_keys (objs ?s r)) ?s) = Some (c, st')"
    using assms Suc by (auto simp add: bnd_Some)
  then have "observes_only ?s st'"
    using observe_group_observes_only(3,4) [OF observes_only_refl]
    by (auto split: if_splits)
  then have "ob (objs st' r) = ob (objs ?s r)"
    by (simp add: observes_only_def objs_grow_def attach_marker)
  then show ?thesis by (simp add: attach_marker i)
qed

lemma count_root_fields:
  "objs (count_root a i st) = objs st"
  "next_observer (count_root a i st) = next_observer st"
  "closures (count_root a i st) = closures st"
  "trace (count_root a i st) = trace st"
  "dep_uid (count_root a i st) = dep_uid st"
  by (simp_all add: count_root_def split: option.split)

lemma emit_heap:
  "objs (emit e st) = objs st" "observers (emit e st) = observers st"
  "next_observer (emit e st) = next_observer st" "closures (emit e st) = closures st"
  "next_closure (emit e st) = next_closure st" "cells (emit e st) = cells st"
  "dep_uid (emit e st) = dep_uid st" "shouldObserve (emit e st) = shouldObserve st"
  by (simp_all add: emit_def)

lemma observe_result:
  assumes "observe P n v a st = Some (Normal (Some i), st1)"
  shows "\<exists>r. v = VRef r \<and> ob (objs st1 r) = Some i \<and> kind (objs st1 r) \<noteq> VNode"
proof (cases v)
  case (VRef r)
  let ?st = "emit (ObserveCall (VRef r)) st"
  have k: "kind (objs ?st r) \<noteq> VNode"
    using assms VRef by (auto simp add: Let_def)
  have "ob (objs st1 r) = Some i \<and> kind (objs st1 r) \<noteq> VNode"
  proof (cases "ob (objs ?st r)")
    case (Some j)
    then show ?thesis
      using assms VRef k by (auto simp add: Let_def bnd_def count_root_fields)
  next
    case None
    then obtain s1 where n: "new_Observer P n r ?st = Some (Normal i, s1)"
        and s: "st1 = count_root a (Some i) s1"
      using assms VRef k by (auto simp add: Let_def bnd_Some split: if_splits)
    have "observes_only ?st s1"
      using observe_group_observes_only(2) [OF observes_only_refl None n] .
    then have "kind (objs s1 r) = kind (objs ?st r)"
      by (simp add: observes_only_def objs_grow_def)
    then show ?thesis
      using new_Observer_marker [OF n] k by (simp add: s count_root_fields)
  qed
  then show ?thesis using VRef by simp
qed (use assms in auto)



section \<open>Dep and Watcher leave the container store alone\<close>














section \<open>Lemmas about the setter, splice, set and del\<close>

lemma new_Dep_fields:
  "fst (new_Dep st) = dep_uid st" "objs (snd (new_Dep st)) = objs st"
  "trace (snd (new_Dep st)) = trace st" "closures (snd (new_Dep st)) = closures st"
  "next_closure (snd (new_Dep st)) = next_closure st"
  "observers (snd (new_Dep st)) = observers st"
  "next_observer (snd (new_Dep st)) = next_observer st"
  "cells (snd (new_Dep st)) = cells st"
  by (simp_all add: new_Dep_def)

lemma map_of_put_prop: "map_of (put_prop k p ps) k' = (if k' = k then Some p else map_of ps k')"
  by (induction ps) auto

lemma same_value_iff:
  "same_value newVal v \<longleftrightarrow> strict_eq newVal v \<or> (newVal = VNaN \<and> v = VNaN)"
  by (auto simp add: same_value_def strict_eq_def)

lemma reads_only_call_customSetter: "reads_only st (call_customSetter P cl st)"
  by (simp add: call_customSetter_def reads_only_def emit_def calls_simps calls_more
      split: option.split)






lemma observeArray_Nil_any: "observeArray P n [] st = Some (Normal (), st)"
  by simp
















section \<open>The example stores\<close>

lemmas heap_defs = bnd_def should_create_def count_root_def attach_Observer_def new_Dep_def
  initial_val_def install_accessors_def defineProperty_def getOwnPropertyDescriptor_def
  hasOwn_def key_in_def in_Object_prototype_def Object_prototype_keys_def Object_keys_def
  prop_read_def configurable_def enumerable_def property_get_def property_set_def
  call_UserGetter_def call_UserSetter_def emit_def Let_def

lemma observed_state_observe:
  "observe demo_program 3 (VRef 0) False heap_state = Some (Normal (Some 0), observed_state)"
proof -
  have "\<exists>st. observe demo_program 3 (VRef 0) False heap_state = Some (Normal (Some 0), st)"
    by (simp add: demo_defs heap_state_def heap_defs eval_nat_numeral)
  then show ?thesis by (auto simp add: observed_state_def)
qed

lemma observed_state_fields:
  "objs observed_state 0 = \<lparr>kind = PlainObject,
      props = [(Name ''a'', AccessorProp (Some (ReactiveGetter 0)) (Some (ReactiveSetter 0)) True True),
               (Name ''b'', AccessorProp (Some (ReactiveGetter 1)) (Some (ReactiveSetter 1)) True True)],
      elems = [], inherited = [], extensible = True, isVue = False, ob = Some 0\<rparr>"
  "objs observed_state 1 = \<lparr>kind = Array, props = [], elems = [VNum 2, VRef 0], inherited = [],
      extensible = True, isVue = False, ob = Some 1\<rparr>"
  "observers observed_state 0 = \<lparr>ob_value = 0, dep = 0, vmCount = 0\<rparr>"
  "observers observed_state 1 = \<lparr>ob_value = 1, dep = 3, vmCount = 0\<rparr>"
  "closures observed_state 0 = \<lparr>c_obj = 0, c_key = Name ''a'', c_dep = 1, c_getter = None,
      c_setter = None, c_val = VNum 1, c_childOb = None, c_shallow = False, c_customSetter = None\<rparr>"
  "closures observed_state 1 = \<lparr>c_obj = 0, c_key = Name ''b'', c_dep = 2, c_getter = None,
      c_setter = None, c_val = VRef 1, c_childOb = Some 1, c_shallow = False, c_customSetter = None\<rparr>"
  "next_closure observed_state = 2" "next_observer observed_state = 2" "dep_uid observed_state = 4"
  "trace observed_state = [ObserveCall (VRef 0), ObserveCall (VNum 1), ObserveCall (VRef 1),
      ObserveCall (VNum 2), ObserveCall (VRef 0)]"
  by (simp_all add: observed_state_def demo_defs heap_state_def heap_defs eval_nat_numeral)


lemma getter_state_fields:
  "objs getter_state 0 = \<lparr>kind = PlainObject,
      props = [(Name ''g'', AccessorProp (Some (UserGetter 0)) None True True)],
      elems = [], inherited = [], extensible = True, isVue = False, ob = None\<rparr>"
  "next_closure getter_state = 0" "trace getter_state = []" "cells getter_state 0 = VNum 9"
  "next_observer getter_state = 0" "dep_uid getter_state = 0"
  by (simp_all add: getter_state_def demo_defs)

lemma installed_state_fields:
  "closures installed_state 0 = \<lparr>c_obj = 0, c_key = Name ''g'', c_dep = 0,
      c_getter = Some (UserGetter 0), c_setter = None, c_val = VUndefined, c_childOb = None,
      c_shallow = False, c_customSetter = None\<rparr>"
  "cells installed_state 0 = VNum 9"
  "getOwnPropertyDescriptor (objs installed_state 0) (Name ''g'') =
     Some (AccessorProp (Some (ReactiveGetter 0)) (Some (ReactiveSetter 0)) True True)"
  by (simp_all add: installed_state_def getter_state_def demo_defs heap_defs)

section \<open>The claims about observe, defineReactive, set and del\<close>

text \<open>
  C3. When \<open>observe\<close> returns an Observer for a value, a second call on that value,
  with any nesting bound and either root flag, returns the same Observer: it finds the
  marker and creates nothing (no Observer, Dep or closure is allocated and no container
  changes); only the root counter is incremented when the second call is for root data.
\<close>

theorem observe_idempotent:
  assumes "observe P n v asRootData st = Some (Normal (Some i), st1)"
  shows "\<exists>st2. observe P m v asRootData' st1 = Some (Normal (Some i), st2) \<and>
           objs st2 = objs st1 \<and> next_observer st2 = next_observer st1 \<and>
           dep_uid st2 = dep_uid st1 \<and> closures st2 = closures st1 \<and>
           observers st2 = (if asRootData'
              then (observers st1)(i := (observers st1 i)\<lparr>vmCount :=
                      Suc (vmCount (observers st1 i))\<rparr>)
              else observers st1)"
proof -
  obtain r where r: "v = VRef r" "ob (objs st1 r) = Some i" "kind (objs st1 r) \<noteq> VNode"
    using observe_result [OF assms] by blast
  have "observe P m v asRootData' st1 =
      Some (Normal (Some i), count_root asRootData' (Some i) (emit (ObserveCall v) st1))"
    using r by (simp add: Let_def bnd_def emit_heap)
  then show ?thesis
    by (simp add: count_root_def emit_def)
qed

text \<open>On the example store: observing object 0 again, as root data, returns Observer 0 and only counts the root.\<close>

theorem observe_idempotent_witness:
  "\<exists>st2. observe demo_program 0 (VRef 0) True observed_state = Some (Normal (Some 0), st2) \<and>
         objs st2 = objs observed_state \<and> next_observer st2 = next_observer observed_state \<and>
         dep_uid st2 = dep_uid observed_state \<and> closures st2 = closures observed_state \<and>
         vmCount (observers st2 0) = 1"
  using observe_idempotent [where m = 0 and asRootData' = True, OF observed_state_observe]
    observed_state_fields(3)
  by auto

text \<open>
  C10. \<open>defineReactive(obj, key)\<close> with exactly two arguments, on a configurable
  property that has a getter and no setter, returns without calling the getter: the trace
  gains only the call of \<open>observe\<close> on \<open>undefined\<close>, the closure holds \<open>val = undefined\<close> and
  no child Observer, no Observer is created, and a first reactive read returns what the
  getter returns, registering only the property's own Dep when a watcher is being
  evaluated.
\<close>

theorem defineReactive_getter_only:
  assumes "getOwnPropertyDescriptor (objs st r) k = Some (AccessorProp (Some g) None True e)"
    and "cl = next_closure st"
  shows "\<exists>st'. defineReactive P n r k None None False st = Some (Normal (), st') \<and>
           trace st' = trace st @ [ObserveCall VUndefined] \<and>
           closures st' cl = \<lparr>c_obj = r, c_key = k, c_dep = dep_uid st, c_getter = Some g,
              c_setter = None, c_val = VUndefined, c_childOb = None, c_shallow = False,
              c_customSetter = None\<rparr> \<and>
           getOwnPropertyDescriptor (objs st' r) k =
              Some (AccessorProp (Some (ReactiveGetter cl)) (Some (ReactiveSetter cl)) True True) \<and>
           next_observer st' = next_observer st \<and> observers st' = observers st \<and>
           cells st' = cells st \<and>
           (\<forall>m v s. call_getter_fn m g st' = Some (Normal v, s) \<longrightarrow>
              reactiveGetter (Suc m) cl st' =
                Some (Normal v, if Dep_target s \<noteq> None then Dep_depend (dep_uid st) s else s))"
proof -
  let ?s = "snd (new_Dep st)"
  let ?s1 = "emit (ObserveCall VUndefined) ?s"
  let ?c = "\<lparr>c_obj = r, c_key = k, c_dep = dep_uid st, c_getter = Some g,
              c_setter = None, c_val = VUndefined, c_childOb = None, c_shallow = False,
              c_customSetter = None\<rparr>"
  let ?s2 = "?s1\<lparr>closures := (closures ?s1)(cl := ?c), next_closure := Suc cl\<rparr>"
  let ?acc = "AccessorProp (Some (ReactiveGetter cl)) (Some (ReactiveSetter cl)) True True"
  let ?st' = "?s2\<lparr>objs := (objs ?s2)(r := (objs ?s2 r)\<lparr>props := put_prop k ?acc (props (objs ?s2 r))\<rparr>)\<rparr>"
  have own: "hasOwn (objs st r) k" using assms(1) by (simp add: hasOwn_def)
  have d: "defineReactive P n r k None None False st = Some (Normal (), ?st')"
    using assms own
    by (simp add: new_Dep_fields initial_val_def install_accessors_def defineProperty_def
        configurable_def property_get_def property_set_def bnd_def Let_def emit_heap)
  have 1: "trace ?st' = trace st @ [ObserveCall VUndefined]"
    by (simp add: emit_def new_Dep_fields)
  have 2: "closures ?st' cl = ?c" by simp
  have 3: "getOwnPropertyDescriptor (objs ?st' r) k = Some ?acc"
    by (simp add: getOwnPropertyDescriptor_def map_of_put_prop)
  have 4: "next_observer ?st' = next_observer st" "observers ?st' = observers st"
      "cells ?st' = cells st"
    by (simp_all add: emit_def new_Dep_fields)
  have 5: "\<forall>m v s. call_getter_fn m g ?st' = Some (Normal v, s) \<longrightarrow>
              reactiveGetter (Suc m) cl ?st' =
                Some (Normal v, if Dep_target s \<noteq> None then Dep_depend (dep_uid st) s else s)"
  proof (intro allI impI)
    fix m v s assume g: "call_getter_fn m g ?st' = Some (Normal v, s)"
    have "reads_only ?st' s" using getters_read_only(1) [OF reads_only_refl g] .
    then have c: "closures s cl = ?c" by (simp add: reads_only_def)
    have dd: "closures (Dep_depend (dep_uid st) s) cl = ?c"
      using reads_only_Dep_depend [of s "dep_uid st"] c by (simp add: reads_only_def)
    show "reactiveGetter (Suc m) cl ?st' =
        Some (Normal v, if Dep_target s \<noteq> None then Dep_depend (dep_uid st) s else s)"
      using g c dd by (simp add: bnd_def track_read_def Let_def)
  qed
  show ?thesis using d 1 2 3 4 5 by blast
qed

text \<open>On the store with the getter-only property \<open>g\<close>: nothing is read at installation and the first reactive read returns the getter's 9.\<close>

theorem defineReactive_getter_only_witness:
  "\<exists>st'. defineReactive demo_program 1 0 (Name ''g'') None None False getter_state =
           Some (Normal (), st') \<and>
         trace st' = [ObserveCall VUndefined] \<and>
         c_val (closures st' 0) = VUndefined \<and> c_childOb (closures st' 0) = None \<and>
         next_observer st' = 0 \<and>
         (\<exists>s. reactiveGetter 2 0 st' = Some (Normal (VNum 9), s))"
proof -
  have d: "getOwnPropertyDescriptor (objs getter_state 0) (Name ''g'') =
      Some (AccessorProp (Some (UserGetter 0)) None True True)"
    by (simp add: getter_state_fields getOwnPropertyDescriptor_def)
  obtain st' where 1: "defineReactive demo_program 1 0 (Name ''g'') None None False getter_state =
           Some (Normal (), st')"
    and 2: "trace st' = trace getter_state @ [ObserveCall VUndefined]"
    and 3: "closures st' 0 = \<lparr>c_obj = 0, c_key = Name ''g'', c_dep = dep_uid getter_state,
              c_getter = Some (UserGetter 0),
              c_setter = None, c_val = VUndefined, c_childOb = None, c_shallow = False,
              c_customSetter = None\<rparr>"
    and 4: "next_observer st' = next_observer getter_state" "cells st' = cells getter_state"
    and 5: "\<forall>m v s. call_getter_fn m (UserGetter 0) st' = Some (Normal v, s) \<longrightarrow>
              reactiveGetter (Suc m) 0 st' =
                Some (Normal v, if Dep_target s \<noteq> None then Dep_depend (dep_uid getter_state) s else s)"
    using defineReactive_getter_only [OF d, of 0 demo_program 1]
    by (auto simp add: getter_state_fields)
  have "call_getter_fn 1 (UserGetter 0) st' = Some (Normal (VNum 9), emit (UserGetterCall 0) st')"
    by (simp add: call_UserGetter_def 4 getter_state_fields)
  then have "\<exists>s. reactiveGetter 2 0 st' = Some (Normal (VNum 9), s)"
    using 5 by (auto simp add: eval_nat_numeral)
  then show ?thesis using 1 2 3 4 by (simp add: getter_state_fields)
qed

text \<open>
  C4. For the setter installed by \<open>defineReactive\<close>, when reading the current value
  returns \<open>v\<close>: a new value that is strictly equal to \<open>v\<close>, or NaN when \<open>v\<close> is NaN, makes
  the setter return with nothing stored, no child Observer recomputed and no call of
  \<open>notify\<close> (the state is the one the read left, which differs from the initial one only
  by what reading does); and when the property had a getter and no setter, every write
  returns normally with nothing stored and no call of \<open>notify\<close>.
\<close>

theorem reactiveSetter_ignores_same_value_and_getter_only:
  assumes "closure_value n cl st = Some (Normal v, st1)"
  shows "(strict_eq newVal v \<or> (newVal = VNaN \<and> v = VNaN) \<longrightarrow>
            reactiveSetter P (Suc n) cl newVal st = Some (Normal (), st1) \<and>
            reads_only st st1) \<and>
         (c_getter (closures st cl) \<noteq> None \<and> c_setter (closures st cl) = None \<longrightarrow>
            (\<exists>st2. reactiveSetter P (Suc n) cl newVal st = Some (Normal (), st2) \<and>
                   reads_only st st2))"
proof -
  have r: "reads_only st st1"
    using getters_read_only(2) [OF reads_only_refl assms] .
  have c: "closures (call_customSetter P cl st1) = closures st"
    using r reads_only_call_customSetter [of st1 P cl] by (simp add: reads_only_def)
  have 1: "same_value newVal v \<Longrightarrow> reactiveSetter P (Suc n) cl newVal st = Some (Normal (), st1)"
    using assms by (simp add: bnd_def del: closure_value.simps)
  have 2: "c_getter (closures st cl) \<noteq> None \<and> c_setter (closures st cl) = None \<Longrightarrow>
      \<exists>st2. reactiveSetter P (Suc n) cl newVal st = Some (Normal (), st2) \<and> reads_only st st2"
  proof (cases "same_value newVal v")
    case True
    then show ?thesis using 1 r by blast
  next
    case False
    assume g: "c_getter (closures st cl) \<noteq> None \<and> c_setter (closures st cl) = None"
    have "reactiveSetter P (Suc n) cl newVal st = Some (Normal (), call_customSetter P cl st1)"
      using assms False g c by (simp add: bnd_def del: closure_value.simps)
    moreover have "reads_only st (call_customSetter P cl st1)"
      using r reads_only_call_customSetter reads_only_trans by blast
    ultimately show ?thesis by blast
  qed
  show ?thesis using 1 2 r by (auto simp add: same_value_iff)
qed

text \<open>Writing 1 to the property \<open>a\<close> that holds 1 changes nothing, and writing 5 to the installed getter-only property \<open>g\<close> stores nothing.\<close>

theorem reactiveSetter_ignores_same_value_and_getter_only_witness:
  "reactiveSetter demo_program 3 0 (VNum 1) observed_state = Some (Normal (), observed_state) \<and>
   (\<exists>st2. reactiveSetter demo_program 1 0 (VNum 5) installed_state = Some (Normal (), st2) \<and>
          closures st2 = closures installed_state \<and> cells st2 = cells installed_state \<and>
          objs st2 = objs installed_state \<and>
          notify_calls (trace st2) = notify_calls (trace installed_state))"
proof -
  have a: "closure_value 2 0 observed_state = Some (Normal (VNum 1), observed_state)"
    by (simp add: observed_state_fields)
  have b: "closure_value 0 0 installed_state =
      Some (Normal (VNum 9), emit (UserGetterCall 0) installed_state)"
    by (simp add: installed_state_fields call_UserGetter_def)
  have "reactiveSetter demo_program 3 0 (VNum 1) observed_state = Some (Normal (), observed_state)"
    using reactiveSetter_ignores_same_value_and_getter_only [OF a, of "VNum 1" demo_program]
    by (simp add: strict_eq_def eval_nat_numeral)
  moreover have "\<exists>st2. reactiveSetter demo_program 1 0 (VNum 5) installed_state = Some (Normal (), st2) \<and>
          reads_only installed_state st2"
    using reactiveSetter_ignores_same_value_and_getter_only [OF b, of "VNum 5" demo_program]
    by (simp add: installed_state_fields)
  ultimately show ?thesis by (auto simp add: reads_only_def)
qed








end
